theory Spec2Isabelle
  imports Main
begin

section \<open>JavaScript strings\<close>

text \<open>
  A JavaScript string is a sequence of UTF-16 code units. A code unit is modelled by its
  number; the type \<open>nat\<close> admits every code unit (and more), so a statement about every
  \<open>jsstring\<close> covers every string the program can receive. String literals of the
  source are written \<open>js ''...''\<close>.
\<close>

type_synonym jsstring = "nat list"

definition js :: "string \<Rightarrow> jsstring" where
  "js s = map of_char s"

text \<open>
  The characters matched by \<open>\s\<close> and removed by \<open>String.prototype.trim\<close>:
  WhiteSpace and LineTerminator of ECMAScript (TAB, LF, VT, FF, CR, SP, NBSP, U+1680,
  U+2000..U+200A, U+2028, U+2029, U+202F, U+205F, U+3000, U+FEFF).
\<close>

definition is_space :: "nat \<Rightarrow> bool" where
  "is_space c = (c = 9 \<or> c = 10 \<or> c = 11 \<or> c = 12 \<or> c = 13 \<or> c = 32 \<or> c = 160 \<or>
     c = 5760 \<or> (8192 \<le> c \<and> c \<le> 8202) \<or> c = 8232 \<or> c = 8233 \<or> c = 8239 \<or>
     c = 8287 \<or> c = 12288 \<or> c = 65279)"

definition is_digit :: "nat \<Rightarrow> bool" where
  "is_digit c = (48 \<le> c \<and> c \<le> 57)"

definition trim :: "jsstring \<Rightarrow> jsstring" where
  "trim s = rev (dropWhile is_space (rev (dropWhile is_space s)))"

section \<open>Regular expressions\<close>

text \<open>
  The regular expressions of \<open>ocr.ts\<close> use literal characters, character classes
  (ranges, \<open>\d\<close>, \<open>\s\<close>), sequence, alternation, greedy quantifiers, capturing and
  non-capturing groups, and the assertions \<open>^\<close> and \<open>$\<close>. \<open>Rep mn mx r\<close> is the greedy
  quantifier \<open>r{mn,mx}\<close> (\<open>mx = None\<close> for no upper bound): \<open>r?\<close> is \<open>Rep 0 (Some 1) r\<close>,
  \<open>r+\<close> is \<open>Rep 1 None r\<close>, \<open>r*\<close> is \<open>Rep 0 None r\<close>. A non-capturing group is just
  its body.
\<close>

datatype citem = CRange nat nat | CChar nat | CDigit | CSpace

datatype regex =
    Chr nat
  | Cls "citem list"
  | Seq regex regex
  | Alt regex regex
  | Rep nat "nat option" regex
  | Grp nat regex
  | Bos
  | Eos

text \<open>
  Case-insensitive matching (flag \<open>i\<close>, without flag \<open>u\<close>) compares characters after
  Canonicalize, which maps a character to its upper case unless that would turn a
  non-ASCII character into an ASCII one. Every class and literal of the source holds
  ASCII characters only, so a character matches one of them under \<open>i\<close> exactly when
  its ASCII upper-case or lower-case variant does; \<open>upper\<close> and \<open>lower\<close> are these
  variants.
\<close>

definition upper :: "nat \<Rightarrow> nat" where
  "upper c = (if 97 \<le> c \<and> c \<le> 122 then c - 32 else c)"

definition lower :: "nat \<Rightarrow> nat" where
  "lower c = (if 65 \<le> c \<and> c \<le> 90 then c + 32 else c)"

definition chr_match :: "bool \<Rightarrow> nat \<Rightarrow> nat \<Rightarrow> bool" where
  "chr_match ic p c = (p = c \<or> (ic \<and> (p = upper c \<or> p = lower c)))"

fun item_match :: "bool \<Rightarrow> citem \<Rightarrow> nat \<Rightarrow> bool" where
  "item_match ic (CRange a b) c =
     ((a \<le> c \<and> c \<le> b) \<or>
      (ic \<and> ((a \<le> upper c \<and> upper c \<le> b) \<or> (a \<le> lower c \<and> lower c \<le> b))))"
| "item_match ic (CChar p) c = chr_match ic p c"
| "item_match ic CDigit c = is_digit c"
| "item_match ic CSpace c = is_space c"

definition cls_match :: "bool \<Rightarrow> citem list \<Rightarrow> nat \<Rightarrow> bool" where
  "cls_match ic items c = list_ex (\<lambda>it. item_match ic it c) items"

text \<open>
  A matcher state is the index reached, the input that remains from there, and the
  captures made so far (latest first). A matcher returns every way it can match, in
  the order in which the backtracking matcher of ECMAScript tries them; the head of
  that list is the match JavaScript reports.
\<close>

type_synonym mstate = "nat \<times> jsstring \<times> (nat \<times> jsstring) list"

fun dec :: "nat option \<Rightarrow> nat option" where
  "dec None = None"
| "dec (Some n) = Some (n - 1)"

text \<open>
  RepeatMatcher of ECMAScript: with \<open>mx = 0\<close> continue after the quantifier; an
  iteration that consumed nothing once the minimum is reached is rejected; while the
  minimum is not reached an iteration is required; otherwise (greedy) iterating is
  tried first and stopping last.
\<close>

function rep :: "(mstate \<Rightarrow> mstate list) \<Rightarrow> nat \<Rightarrow> nat option \<Rightarrow> mstate \<Rightarrow> mstate list" where
  "rep f mn mx x =
     (if mx = Some 0 then [x]
      else if mn \<noteq> 0
        then concat (map (\<lambda>y. rep f (mn - 1) (dec mx) y) (f x))
        else concat (map (\<lambda>y. if length (fst (snd y)) < length (fst (snd x))
                                then rep f 0 (dec mx) y else []) (f x)) @ [x])"
  by pat_completeness auto
termination
  by (relation "measures [\<lambda>(f, mn, mx, x). mn, \<lambda>(f, mn, mx, x). length (fst (snd x))]") auto

fun matcher :: "bool \<Rightarrow> regex \<Rightarrow> mstate \<Rightarrow> mstate list" where
  "matcher ic (Chr p) (i, rest, caps) =
     (case rest of [] \<Rightarrow> []
      | c # cs \<Rightarrow> if chr_match ic p c then [(Suc i, cs, caps)] else [])"
| "matcher ic (Cls items) (i, rest, caps) =
     (case rest of [] \<Rightarrow> []
      | c # cs \<Rightarrow> if cls_match ic items c then [(Suc i, cs, caps)] else [])"
| "matcher ic (Seq a b) x = concat (map (matcher ic b) (matcher ic a x))"
| "matcher ic (Alt a b) x = matcher ic a x @ matcher ic b x"
| "matcher ic (Rep mn mx r) x = rep (matcher ic r) mn mx x"
| "matcher ic (Grp n r) (i, rest, caps) =
     map (\<lambda>(j, rest', caps'). (j, rest', (n, take (j - i) rest) # caps'))
       (matcher ic r (i, rest, caps))"
| "matcher ic Bos (i, rest, caps) = (if i = 0 then [(i, rest, caps)] else [])"
| "matcher ic Eos (i, rest, caps) = (if rest = [] then [(i, rest, caps)] else [])"

text \<open>
  \<open>RegExp.prototype.exec\<close> without the flag \<open>g\<close>: try the pattern at index 0, 1, ...
  and report the first index where it matches, as (index, matched text, captures).
\<close>

type_synonym jsmatch = "nat \<times> jsstring \<times> (nat \<times> jsstring) list"

fun exec_from :: "bool \<Rightarrow> regex \<Rightarrow> nat \<Rightarrow> jsstring \<Rightarrow> jsmatch option" where
  "exec_from ic r i rest =
     (case matcher ic r (i, rest, []) of
        (j, rest', caps) # _ \<Rightarrow> Some (i, take (j - i) rest, caps)
      | [] \<Rightarrow> (case rest of [] \<Rightarrow> None | c # cs \<Rightarrow> exec_from ic r (Suc i) cs))"

definition exec :: "bool \<Rightarrow> regex \<Rightarrow> jsstring \<Rightarrow> jsmatch option" where
  "exec ic r s = exec_from ic r 0 s"

text \<open>
  \<open>String.prototype.match\<close> with the flag \<open>g\<close>: the matched texts, scanning from left
  to right; after a match the scan goes on where the match ended (one character
  further after an empty match).
\<close>

function match_all_from :: "bool \<Rightarrow> regex \<Rightarrow> nat \<Rightarrow> jsstring \<Rightarrow> jsstring list" where
  "match_all_from ic r i rest =
     (case matcher ic r (i, rest, []) of
        [] \<Rightarrow> (case rest of [] \<Rightarrow> [] | c # cs \<Rightarrow> match_all_from ic r (Suc i) cs)
      | (j, rest', caps) # _ \<Rightarrow>
          take (j - i) rest #
            (if length rest' < length rest then match_all_from ic r j rest'
             else (case rest of [] \<Rightarrow> [] | c # cs \<Rightarrow> match_all_from ic r (Suc i) cs)))"
  by pat_completeness auto
termination
  by (relation "measure (\<lambda>(ic, r, i, rest). length rest)") auto

definition match_all :: "bool \<Rightarrow> regex \<Rightarrow> jsstring \<Rightarrow> jsstring list" where
  "match_all ic r s = match_all_from ic r 0 s"

text \<open>
  \<open>String.prototype.replace\<close> with a pattern with the flag \<open>g\<close>: every match of the
  scan above is replaced, the text between matches is kept.
\<close>

function replace_all_from :: "bool \<Rightarrow> regex \<Rightarrow> jsstring \<Rightarrow> nat \<Rightarrow> jsstring \<Rightarrow> jsstring" where
  "replace_all_from ic r new i rest =
     (case matcher ic r (i, rest, []) of
        [] \<Rightarrow> (case rest of [] \<Rightarrow> [] | c # cs \<Rightarrow> c # replace_all_from ic r new (Suc i) cs)
      | (j, rest', caps) # _ \<Rightarrow>
          new @
            (if length rest' < length rest then replace_all_from ic r new j rest'
             else (case rest of [] \<Rightarrow> [] | c # cs \<Rightarrow> c # replace_all_from ic r new (Suc i) cs)))"
  by pat_completeness auto
termination
  by (relation "measure (\<lambda>(ic, r, new, i, rest). length rest)") auto

definition replace_all :: "bool \<Rightarrow> regex \<Rightarrow> jsstring \<Rightarrow> jsstring \<Rightarrow> jsstring" where
  "replace_all ic r new s = replace_all_from ic r new 0 s"

text \<open>\<open>String.prototype.replace\<close> with a pattern without the flag \<open>g\<close>: the first match only.\<close>

definition replace_first :: "bool \<Rightarrow> regex \<Rightarrow> jsstring \<Rightarrow> jsstring \<Rightarrow> jsstring" where
  "replace_first ic r new s =
     (case exec ic r s of
        None \<Rightarrow> s
      | Some (i, m, caps) \<Rightarrow> take i s @ new @ drop (i + length m) s)"

text \<open>
  \<open>String.prototype.split\<close> with a string separator: the pieces between the
  occurrences of the separator, found from left to right without overlap. With the
  empty separator the string is split into its code units.
\<close>

function split_from :: "jsstring \<Rightarrow> jsstring \<Rightarrow> jsstring \<Rightarrow> jsstring list" where
  "split_from sep acc s =
     (if sep = [] then map (\<lambda>c. [c]) s
      else if s = [] then [rev acc]
      else if take (length sep) s = sep then rev acc # split_from sep [] (drop (length sep) s)
      else split_from sep (hd s # acc) (tl s))"
  by pat_completeness auto
termination
  by (relation "measure (\<lambda>(sep, acc, s). length s)") auto

definition split_str :: "jsstring \<Rightarrow> jsstring \<Rightarrow> jsstring list" where
  "split_str s sep = split_from sep [] s"

section \<open>Numbers\<close>

text \<open>
  The numbers of the extraction come from \<open>parseFloat\<close> on texts of the shape
  \<open>-?\d{1,3}.\d{3,12}\<close>: decimals with at most 15 significant digits. \<open>Dec neg m k\<close>
  is the decimal \<open>m / 10 ^ k\<close>, negated when \<open>neg\<close>. An IEEE double represents such a
  decimal up to rounding; with at most 12 fractional digits and a magnitude below 1000
  the rounding neither changes the outcome of a comparison with an integer nor the
  digits printed by \<open>Number.prototype.toString\<close> (the shortest decimal that reads back
  as the same double), so the model computes on the exact decimal. \<open>parseFloat\<close> is
  modelled on texts without exponent part: optional white space, optional sign, digits,
  an optional fraction; the longest such prefix is read, and a text with no digits
  gives \<open>NaN\<close>.
\<close>

datatype jsnum = NaN | Dec bool nat nat

definition digits_val :: "jsstring \<Rightarrow> nat" where
  "digits_val ds = foldl (\<lambda>a c. 10 * a + (c - 48)) 0 ds"

definition parseFloat :: "jsstring \<Rightarrow> jsnum" where
  "parseFloat s =
     (let t = dropWhile is_space s;
          neg = (case t of [] \<Rightarrow> False | c # cs \<Rightarrow> c = 45);
          u = (case t of [] \<Rightarrow> [] | c # cs \<Rightarrow> if c = 45 \<or> c = 43 then cs else t);
          ip = takeWhile is_digit u;
          fp = (case dropWhile is_digit u of [] \<Rightarrow> []
                | c # cs \<Rightarrow> if c = 46 then takeWhile is_digit cs else [])
      in if ip = [] \<and> fp = [] then NaN else Dec neg (digits_val (ip @ fp)) (length fp))"

text \<open>The comparisons \<open>n >= b\<close> and \<open>n <= b\<close> with an integer \<open>b\<close>; both are false for \<open>NaN\<close>.\<close>

fun num_ge :: "jsnum \<Rightarrow> nat \<Rightarrow> bool" where
  "num_ge NaN b = False"
| "num_ge (Dec neg m k) b = (if neg then m = 0 \<and> b = 0 else b * 10 ^ k \<le> m)"

fun num_le :: "jsnum \<Rightarrow> nat \<Rightarrow> bool" where
  "num_le NaN b = False"
| "num_le (Dec neg m k) b = (if neg then True else m \<le> b * 10 ^ k)"

fun nat_digits :: "nat \<Rightarrow> jsstring" where
  "nat_digits n = (if n < 10 then [48 + n] else nat_digits (n div 10) @ [48 + n mod 10])"

function strip_zeros :: "nat \<Rightarrow> nat \<Rightarrow> nat \<times> nat" where
  "strip_zeros m k = (if 0 < k \<and> m mod 10 = 0 then strip_zeros (m div 10) (k - 1) else (m, k))"
  by pat_completeness auto
termination
  by (relation "measure (\<lambda>(m, k). k)") auto

text \<open>
  \<open>Number.prototype.toString\<close> in positional notation: the integer part, and after a
  point the fractional digits without trailing zeros. (JavaScript switches to exponent
  notation below \<open>1e-6\<close> and from \<open>1e21\<close> on; the extraction prints numbers between 23
  and 78 only.)
\<close>

definition toString :: "jsnum \<Rightarrow> jsstring" where
  "toString n =
     (case n of
        NaN \<Rightarrow> js ''NaN''
      | Dec neg m k \<Rightarrow>
          (case strip_zeros m k of
             (m', k') \<Rightarrow>
               (if neg \<and> m' \<noteq> 0 then js ''-'' else []) @
               nat_digits (m' div 10 ^ k') @
               (if k' = 0 then []
                else js ''.'' @
                  replicate (k' - length (nat_digits (m' mod 10 ^ k'))) 48 @
                  nat_digits (m' mod 10 ^ k'))))"

section \<open>Field extraction (\<open>processImage\<close> in \<open>ocr.ts\<close>, after recognition)\<close>

record ExtractedData =
  imageName :: jsstring
  plusCode :: jsstring
  latitude :: jsstring
  longitude :: jsstring
  timestamp :: jsstring
  originalText :: jsstring

definition not_found :: jsstring where
  "not_found = js ''Not found''"

text \<open>\<open>text.replace(/\n/g, " ").replace(/\s+/g, " ")\<close>\<close>

definition normalizeText :: "jsstring \<Rightarrow> jsstring" where
  "normalizeText text =
     replace_all False (Rep 1 None (Cls [CSpace])) (js '' '')
       (replace_all False (Chr (of_char CHR 0x0A)) (js '' '') text)"

text \<open>\<open>/[A-Z0-9]{4,8}\+[A-Z0-9]{2,4}/i\<close>\<close>

definition upper_digit :: regex where
  "upper_digit = Cls [CRange (of_char CHR ''A'') (of_char CHR ''Z''),
                      CRange (of_char CHR ''0'') (of_char CHR ''9'')]"

definition simplePlusCodeRegex :: regex where
  "simplePlusCodeRegex =
     Seq (Rep 4 (Some 8) upper_digit)
       (Seq (Chr (of_char CHR ''+'')) (Rep 2 (Some 4) upper_digit))"

text \<open>\<open>/^(?:[\s,]+[A-Za-z0-9]{2,}(?:[\s,]+[A-Za-z0-9]{2,})*)*/\<close>\<close>

definition separators :: regex where
  "separators = Rep 1 None (Cls [CSpace, CChar (of_char CHR '','')])"

definition word2 :: regex where
  "word2 = Rep 2 None (Cls [CRange (of_char CHR ''A'') (of_char CHR ''Z''),
                            CRange (of_char CHR ''a'') (of_char CHR ''z''),
                            CRange (of_char CHR ''0'') (of_char CHR ''9'')])"

definition addressCleanupRegex :: regex where
  "addressCleanupRegex =
     Seq Bos (Rep 0 None
       (Seq separators (Seq word2 (Rep 0 None (Seq separators word2)))))"

text \<open>\<open>/[,\s]+$/\<close>\<close>

definition trailingSeparators :: regex where
  "trailingSeparators = Seq (Rep 1 None (Cls [CChar (of_char CHR '',''), CSpace])) Eos"

text \<open>\<open>/-?\d{1,3}[.,]\d{3,12}/g\<close>\<close>

definition allNumbersRegex :: regex where
  "allNumbersRegex =
     Seq (Rep 0 (Some 1) (Chr (of_char CHR ''-'')))
       (Seq (Rep 1 (Some 3) (Cls [CDigit]))
         (Seq (Cls [CChar (of_char CHR ''.''), CChar (of_char CHR '','')])
           (Rep 3 (Some 12) (Cls [CDigit]))))"

text \<open>
  The four timestamp patterns, all with the flag \<open>i\<close>. Their parts:
  \<open>\d{1,2}\/\d{1,2}\/\d{2,4}\<close> (\<open>date_re\<close>), \<open>\d{h,2}:\d{2}(?::\d{2})?\<close> (\<open>time_re h\<close>),
  \<open>(?:AM|PM)\<close> (\<open>am_pm\<close>), \<open>\s?\<close> and \<open>\s+\<close>.
\<close>

definition digits_re :: "nat \<Rightarrow> nat \<Rightarrow> regex" where
  "digits_re a b = Rep a (Some b) (Cls [CDigit])"

definition date_re :: regex where
  "date_re =
     Seq (digits_re 1 2) (Seq (Chr (of_char CHR ''/''))
       (Seq (digits_re 1 2) (Seq (Chr (of_char CHR ''/'')) (digits_re 2 4))))"

definition time_re :: "nat \<Rightarrow> regex" where
  "time_re h =
     Seq (digits_re h 2) (Seq (Chr (of_char CHR '':''))
       (Seq (digits_re 2 2)
         (Rep 0 (Some 1) (Seq (Chr (of_char CHR '':'')) (digits_re 2 2)))))"

definition am_pm :: regex where
  "am_pm = Alt (Seq (Chr (of_char CHR ''A'')) (Chr (of_char CHR ''M'')))
               (Seq (Chr (of_char CHR ''P'')) (Chr (of_char CHR ''M'')))"

definition opt_space :: regex where
  "opt_space = Rep 0 (Some 1) (Cls [CSpace])"

definition spaces :: regex where
  "spaces = Rep 1 None (Cls [CSpace])"

definition timestampPatterns :: "regex list" where
  "timestampPatterns =
     [Seq (Grp 1 (Seq (time_re 1) (Seq opt_space am_pm))) (Seq spaces (Grp 2 date_re)),
      Seq (Grp 1 date_re)
        (Seq spaces (Grp 2 (Seq (time_re 1) (Seq opt_space (Rep 0 (Some 1) am_pm))))),
      Seq (Grp 1 (time_re 2)) (Seq spaces (Grp 2 date_re)),
      Seq (Grp 1 date_re) (Seq spaces (Grp 2 (time_re 2)))]"

text \<open>A capture inside a template literal: \<open>undefined\<close> prints as its name.\<close>

definition capture :: "(nat \<times> jsstring) list \<Rightarrow> nat \<Rightarrow> jsstring" where
  "capture caps n = (case map_of caps n of None \<Rightarrow> js ''undefined'' | Some w \<Rightarrow> w)"

text \<open>The loop over \<open>timestampPatterns\<close>: the first pattern that matches decides.\<close>

fun findTimestamp :: "regex list \<Rightarrow> jsstring \<Rightarrow> jsstring" where
  "findTimestamp [] normalizedText = not_found"
| "findTimestamp (pattern # patterns) normalizedText =
     (case exec True pattern normalizedText of
        Some (i, m, caps) \<Rightarrow> trim (capture caps 1 @ js '' '' @ capture caps 2)
      | None \<Rightarrow> findTimestamp patterns normalizedText)"

definition replace_comma :: "jsstring \<Rightarrow> jsstring" where
  "replace_comma n = replace_first False (Chr (of_char CHR '','')) (js ''.'') n"

definition findPlusCode :: "jsstring \<Rightarrow> jsstring" where
  "findPlusCode normalizedText =
     (case exec True simplePlusCodeRegex normalizedText of
        None \<Rightarrow> not_found
      | Some (i, m, caps) \<Rightarrow>
          (let pc = trim m;
               afterMatch = (case drop 1 (split_str normalizedText pc) of [] \<Rightarrow> [] | a # _ \<Rightarrow> a)
           in pc @ (case exec False addressCleanupRegex afterMatch of
                      None \<Rightarrow> []
                    | Some (i', m', caps') \<Rightarrow> replace_first False trailingSeparators [] m')))"

definition potentialCoords :: "jsstring \<Rightarrow> jsnum list" where
  "potentialCoords normalizedText =
     map (\<lambda>n. parseFloat (replace_comma n)) (match_all False allNumbersRegex normalizedText)"

definition firstInRange :: "nat \<Rightarrow> nat \<Rightarrow> jsnum list \<Rightarrow> jsstring" where
  "firstInRange lo hi coords =
     (case filter (\<lambda>n. num_ge n lo \<and> num_le n hi) coords of
        [] \<Rightarrow> not_found
      | n # _ \<Rightarrow> toString n)"

definition extractFields :: "jsstring \<Rightarrow> jsstring \<Rightarrow> ExtractedData" where
  "extractFields name text =
     (let normalizedText = normalizeText text in
      \<lparr> imageName = name,
        plusCode = findPlusCode normalizedText,
        latitude = firstInRange 23 37 (potentialCoords normalizedText),
        longitude = firstInRange 60 78 (potentialCoords normalizedText),
        timestamp = findTimestamp timestampPatterns normalizedText,
        originalText = text \<rparr>)"

section \<open>The worker pool (\<open>getScheduler\<close> in \<open>ocr.ts\<close>)\<close>

text \<open>
  The module keeps one variable, \<open>scheduler\<close>, \<open>null\<close> at first. JavaScript runs a call
  without interruption up to its first \<open>await\<close>, so the pool changes in steps:
  \<^item> a call of \<open>getScheduler\<close> runs up to its return or its \<open>await Promise.all\<close>: with
    \<open>scheduler\<close> set it returns the scheduler at once; otherwise it stores a fresh
    scheduler without workers in \<open>scheduler\<close>, starts \<open>WORKER_COUNT\<close> calls of
    \<open>createWorker\<close> and waits;
  \<^item> a started \<open>createWorker\<close> settles: on success its worker is added to the scheduler,
    on failure nothing is added and \<open>Promise.all\<close> rejects.
  The state records the workers added to the scheduler so far (\<open>None\<close> for \<open>null\<close>),
  the number of \<open>createWorker\<close> calls made, and the workers still being created.
  Workers are numbered in the order of their \<open>createWorker\<close> calls.
\<close>

record pool =
  scheduler :: "nat list option"
  engines :: nat
  pending :: "nat list"

definition WORKER_COUNT :: nat where
  "WORKER_COUNT = 3"

definition initial_pool :: pool where
  "initial_pool = \<lparr> scheduler = None, engines = 0, pending = [] \<rparr>"

text \<open>
  The synchronous part of a call. The result is \<open>Some ws\<close> when the call returns at
  once, \<open>ws\<close> being the workers the returned scheduler holds at that moment, and \<open>None\<close>
  when the caller now waits for \<open>Promise.all\<close>.
\<close>

definition getScheduler_enter :: "pool \<Rightarrow> nat list option \<times> pool" where
  "getScheduler_enter p =
     (case scheduler p of
        Some ws \<Rightarrow> (Some ws, p)
      | None \<Rightarrow>
          (None, p\<lparr> scheduler := Some [],
                    engines := engines p + WORKER_COUNT,
                    pending := [engines p ..< engines p + WORKER_COUNT] \<rparr>))"

text \<open>The \<open>createWorker\<close> call of worker \<open>k\<close> settles, successfully (\<open>ok\<close>) or not.\<close>

definition worker_settles :: "nat \<Rightarrow> bool \<Rightarrow> pool \<Rightarrow> pool" where
  "worker_settles k ok p =
     (if k \<in> set (pending p)
      then p\<lparr> pending := removeAll k (pending p),
               scheduler := (if ok then map_option (\<lambda>ws. ws @ [k]) (scheduler p)
                             else scheduler p) \<rparr>
      else p)"

datatype pool_event = Call | Settles nat bool

text \<open>
  One step of the pool; the second component collects what the calls that returned at
  once received.
\<close>

fun pool_step :: "pool \<times> nat list list \<Rightarrow> pool_event \<Rightarrow> pool \<times> nat list list" where
  "pool_step (p, got) Call =
     (case getScheduler_enter p of
        (Some ws, p') \<Rightarrow> (p', got @ [ws])
      | (None, p') \<Rightarrow> (p', got))"
| "pool_step (p, got) (Settles k ok) = (worker_settles k ok p, got)"

definition pool_run :: "pool_event list \<Rightarrow> pool \<times> nat list list" where
  "pool_run evs = foldl pool_step (initial_pool, []) evs"

text \<open>
  A call of \<open>getScheduler\<close> awaited to its end, with no other call in between: when it
  had to initialize, \<open>created\<close> tells for each of the \<open>WORKER_COUNT\<close> workers whether
  its creation succeeds. The call fails (\<open>Inl\<close>) when one creation fails; the workers
  created successfully are added to the stored scheduler all the same.
\<close>

datatype pool_error = WorkerInitError

definition getScheduler :: "(nat \<Rightarrow> bool) \<Rightarrow> pool \<Rightarrow> (pool_error + nat list) \<times> pool" where
  "getScheduler created p =
     (case getScheduler_enter p of
        (Some ws, p') \<Rightarrow> (Inr ws, p')
      | (None, p') \<Rightarrow>
          (let p'' = foldl (\<lambda>q k. worker_settles k (created k) q) p' (pending p')
           in ((if list_all created (pending p')
                then Inr (case scheduler p'' of None \<Rightarrow> [] | Some ws \<Rightarrow> ws)
                else Inl WorkerInitError), p'')))"

text \<open>
  The invariant of the pool: \<open>createWorker\<close> has been called \<open>WORKER_COUNT\<close> times
  exactly when \<open>scheduler\<close> is set, and never before.
\<close>

definition pool_inv :: "pool \<Rightarrow> bool" where
  "pool_inv p = (if scheduler p = None then engines p = 0 else engines p = WORKER_COUNT)"

section \<open>The batch (\<open>onDrop\<close> in \<open>App.tsx\<close>, \<open>processImage\<close> in \<open>ocr.ts\<close>, \<open>exportToCSV\<close> in \<open>csv.ts\<close>)\<close>

text \<open>
  \<open>onDrop\<close> calls \<open>processImage\<close> for the files one after the other
  (\<open>acceptedFiles.map(async ...)\<close>), and each call runs without interruption up to its
  \<open>await getScheduler()\<close>, through the synchronous part of \<open>getScheduler\<close>. So the
  calls enter the pool in the order of the files, before any of them goes on.
\<close>

fun enter_all :: "pool \<Rightarrow> nat \<Rightarrow> nat list option list \<times> pool" where
  "enter_all p 0 = ([], p)"
| "enter_all p (Suc n) =
     (case getScheduler_enter p of
        (r, p') \<Rightarrow> (case enter_all p' n of (rs, p'') \<Rightarrow> (r # rs, p'')))"

text \<open>
  Then the workers still being created settle: \<open>createWorker\<close> settles on a message of
  its worker thread, after the continuations that the calls have queued. A call that
  waits for \<open>Promise.all\<close> fails when one creation fails, and otherwise goes on with the
  scheduler and the workers added to it.
\<close>

definition await_workers :: "(nat \<Rightarrow> bool) \<Rightarrow> pool \<Rightarrow> (pool_error + nat list) \<times> pool" where
  "await_workers created p =
     (let p' = foldl (\<lambda>q k. worker_settles k (created k) q) p (pending p)
      in ((if list_all created (pending p)
           then Inr (case scheduler p' of None \<Rightarrow> [] | Some ws \<Rightarrow> ws)
           else Inl WorkerInitError), p'))"

text \<open>
  What \<open>await getScheduler()\<close> gives to each of \<open>n\<close> calls made in a row: to a call that
  returned at once the scheduler with the workers it held at that moment, to a call
  that waited the outcome of the initialization.
\<close>

definition await_schedulers ::
  "(nat \<Rightarrow> bool) \<Rightarrow> pool \<Rightarrow> nat \<Rightarrow> (pool_error + nat list) list \<times> pool" where
  "await_schedulers created p n =
     (case enter_all p n of
        (entered, p') \<Rightarrow>
          (case await_workers created p' of
             (awaited, p'') \<Rightarrow>
               (map (\<lambda>r. case r of Some ws \<Rightarrow> Inr ws | None \<Rightarrow> awaited) entered, p'')))"

text \<open>
  A dropped file has a name and a content. The recognition engine is not part of this
  repository: \<open>created\<close> above and \<open>addJob\<close> are parameters. \<open>addJob ws f\<close> is what
  \<open>await tsScheduler.addJob("recognize", imageUrl)\<close> gives for the file \<open>f\<close> on a scheduler
  that holds the workers \<open>ws\<close> when the job is added: an error \<open>Inl e\<close> or the recognized
  text \<open>Inr text\<close>.

  \<open>processImage\<close>, from its \<open>await getScheduler()\<close> on, whose outcome is \<open>tsScheduler\<close>: an
  error of the pool or of the job is thrown on, and otherwise the fields are
  extracted.
\<close>

record 'c jsfile =
  name :: jsstring
  content :: 'c

datatype 'e image_error = PoolError pool_error | OcrError 'e

definition processImage ::
  "(nat list \<Rightarrow> 'c jsfile \<Rightarrow> 'e + jsstring) \<Rightarrow> pool_error + nat list \<Rightarrow> 'c jsfile \<Rightarrow>
   'e image_error + ExtractedData" where
  "processImage addJob tsScheduler f =
     (case tsScheduler of
        Inl error \<Rightarrow> Inl (PoolError error)
      | Inr ws \<Rightarrow>
          (case addJob ws f of
             Inl error \<Rightarrow> Inl (OcrError error)
           | Inr text \<Rightarrow> Inr (extractFields (name f) text)))"

text \<open>
  \<open>exportToCSV\<close> builds one row per record, with the columns Location/Plus Code,
  Latitude, Longitude, Timestamp, PICS, and starts the download of one file.
  \<open>Papa.unparse\<close> takes the header from the keys of the first row: without rows the
  file has no header either.
\<close>

datatype download = Download "jsstring list" "jsstring list list"

definition exportToCSV :: "ExtractedData list \<Rightarrow> download" where
  "exportToCSV data =
     Download (if data = [] then []
               else [js ''Location/Plus Code'', js ''Latitude'', js ''Longitude'',
                     js ''Timestamp'', js ''PICS''])
       (map (\<lambda>item. [plusCode item, latitude item, longitude item, timestamp item,
                       imageName item]) data)"

text \<open>
  \<open>onDrop\<close>: every file is processed on its own, an error is caught and gives \<open>null\<close>
  (\<open>None\<close>); \<open>Promise.all\<close> keeps the order of the files; the entries that are not
  \<open>null\<close> are exported when there is at least one. The outcome is the list \<open>results\<close>
  and the downloads started, and the pool as the batch leaves it.
\<close>

record batch =
  results :: "ExtractedData option list"
  downloads :: "download list"

definition onDrop ::
  "(nat \<Rightarrow> bool) \<Rightarrow> (nat list \<Rightarrow> 'c jsfile \<Rightarrow> 'e + jsstring) \<Rightarrow> pool \<Rightarrow> 'c jsfile list \<Rightarrow>
   batch \<times> pool" where
  "onDrop created addJob p acceptedFiles =
     (case await_schedulers created p (length acceptedFiles) of
        (schedulers, p') \<Rightarrow>
          (let results = map (\<lambda>(tsScheduler, f).
                                 case processImage addJob tsScheduler f of
                                   Inr result \<Rightarrow> Some result
                                 | Inl error \<Rightarrow> None) (zip schedulers acceptedFiles);
               finalResults = map the (filter (\<lambda>r. r \<noteq> None) results)
           in (\<lparr> results = results,
                 downloads = (if length finalResults > 0 then [exportToCSV finalResults]
                              else []) \<rparr>, p')))"

section \<open>What a pattern matches\<close>

text \<open>
  \<open>wm ic r i w after\<close>: the pattern \<open>r\<close> can match the text \<open>w\<close> at index \<open>i\<close> of the input
  when \<open>after\<close> follows \<open>w\<close> there. The index and the text that follows matter to
  \<open>^\<close> and \<open>$\<close> only. An iteration of a quantifier beyond its minimum consumes at
  least one character, as in ECMAScript.
\<close>

inductive wm :: "bool \<Rightarrow> regex \<Rightarrow> nat \<Rightarrow> jsstring \<Rightarrow> jsstring \<Rightarrow> bool" where
  wm_Chr: "chr_match ic p c \<Longrightarrow> wm ic (Chr p) i [c] after"
| wm_Cls: "cls_match ic items c \<Longrightarrow> wm ic (Cls items) i [c] after"
| wm_Seq: "wm ic a i u (v @ after) \<Longrightarrow> wm ic b (i + length u) v after \<Longrightarrow>
           wm ic (Seq a b) i (u @ v) after"
| wm_Alt1: "wm ic a i w after \<Longrightarrow> wm ic (Alt a b) i w after"
| wm_Alt2: "wm ic b i w after \<Longrightarrow> wm ic (Alt a b) i w after"
| wm_Grp: "wm ic r i w after \<Longrightarrow> wm ic (Grp n r) i w after"
| wm_Bos: "wm ic Bos 0 [] after"
| wm_Eos: "wm ic Eos i [] []"
| wm_RepMax: "wm ic (Rep mn (Some 0) r) i [] after"
| wm_RepStop: "wm ic (Rep 0 mx r) i [] after"
| wm_RepStep: "mx \<noteq> Some 0 \<Longrightarrow> wm ic r i u (v @ after) \<Longrightarrow> mn = 0 \<longrightarrow> u \<noteq> [] \<Longrightarrow>
           wm ic (Rep (mn - 1) (dec mx) r) (i + length u) v after \<Longrightarrow>
           wm ic (Rep mn mx r) i (u @ v) after"

definition steps :: "bool \<Rightarrow> regex \<Rightarrow> mstate \<Rightarrow> mstate \<Rightarrow> bool" where
  "steps ic r x y =
     (\<exists>w. fst (snd x) = w @ fst (snd y) \<and> fst y = fst x + length w \<and>
          wm ic r (fst x) w (fst (snd y)))"

text \<open>\<open>starts ic r i s\<close>: the pattern \<open>r\<close> matches at index \<open>i\<close>, where \<open>s\<close> is the input from there on.\<close>

definition starts :: "bool \<Rightarrow> regex \<Rightarrow> nat \<Rightarrow> jsstring \<Rightarrow> bool" where
  "starts ic r i s = (\<exists>w after. s = w @ after \<and> wm ic r i w after)"

text \<open>The number of iterations a quantifier \<open>{mn,mx}\<close> allows.\<close>

definition within :: "nat \<Rightarrow> nat option \<Rightarrow> nat \<Rightarrow> bool" where
  "within mn mx k = (mn \<le> k \<and> (case mx of None \<Rightarrow> True | Some n \<Rightarrow> k \<le> n))"

text \<open>Matcher states listed from the furthest to the nearest, none at the same index twice.\<close>

abbreviation desc :: "mstate list \<Rightarrow> bool" where
  "desc ys \<equiv> sorted_wrt (\<lambda>a b. fst b < fst a) ys"

text \<open>Patterns without capturing group.\<close>

fun no_grp :: "regex \<Rightarrow> bool" where
  "no_grp (Seq a b) = (no_grp a \<and> no_grp b)"
| "no_grp (Alt a b) = (no_grp a \<and> no_grp b)"
| "no_grp (Rep mn mx r) = no_grp r"
| "no_grp (Grp n r) = False"
| "no_grp r = True"

section \<open>The shapes the specification names\<close>

text \<open>
  Shapes of texts are built from a few combinators: \<open>cat A B\<close> is a text of shape \<open>A\<close>
  followed by one of shape \<open>B\<close>, \<open>lit s\<close> the text \<open>s\<close> itself, \<open>opt A\<close> the empty text
  or a text of shape \<open>A\<close>, \<open>either A B\<close> a text of one of the two shapes, \<open>one_of P\<close>
  one character with the property \<open>P\<close>, \<open>letter p\<close> the upper-case letter \<open>p\<close> in upper
  or lower case, \<open>many a b P\<close> between \<open>a\<close> and \<open>b\<close> characters with the property \<open>P\<close>,
  \<open>at_least a P\<close> at least \<open>a\<close> of them.
\<close>

definition cat :: "(jsstring \<Rightarrow> bool) \<Rightarrow> (jsstring \<Rightarrow> bool) \<Rightarrow> jsstring \<Rightarrow> bool" where
  "cat A B w = (\<exists>u v. w = u @ v \<and> A u \<and> B v)"

definition lit :: "jsstring \<Rightarrow> jsstring \<Rightarrow> bool" where
  "lit s w = (w = s)"

definition opt :: "(jsstring \<Rightarrow> bool) \<Rightarrow> jsstring \<Rightarrow> bool" where
  "opt A w = (w = [] \<or> A w)"

definition either :: "(jsstring \<Rightarrow> bool) \<Rightarrow> (jsstring \<Rightarrow> bool) \<Rightarrow> jsstring \<Rightarrow> bool" where
  "either A B w = (A w \<or> B w)"

definition one_of :: "(nat \<Rightarrow> bool) \<Rightarrow> jsstring \<Rightarrow> bool" where
  "one_of P w = (\<exists>c. w = [c] \<and> P c)"

definition letter :: "nat \<Rightarrow> jsstring \<Rightarrow> bool" where
  "letter p w = (\<exists>c. w = [c] \<and> upper c = p)"

definition many :: "nat \<Rightarrow> nat \<Rightarrow> (nat \<Rightarrow> bool) \<Rightarrow> jsstring \<Rightarrow> bool" where
  "many a b P w = (a \<le> length w \<and> length w \<le> b \<and> list_all P w)"

definition at_least :: "nat \<Rightarrow> (nat \<Rightarrow> bool) \<Rightarrow> jsstring \<Rightarrow> bool" where
  "at_least a P w = (a \<le> length w \<and> list_all P w)"

text \<open>Between \<open>a\<close> and \<open>b\<close> decimal digits.\<close>

definition digits :: "nat \<Rightarrow> nat \<Rightarrow> jsstring \<Rightarrow> bool" where
  "digits a b = many a b is_digit"

text \<open>An ASCII letter or digit.\<close>

definition alnum :: "nat \<Rightarrow> bool" where
  "alnum c = (is_digit c \<or> (65 \<le> c \<and> c \<le> 90) \<or> (97 \<le> c \<and> c \<le> 122))"

text \<open>
  A plus-code token: 4 to 8 alphanumeric characters, a \<open>+\<close>, 2 to 4 alphanumeric
  characters.
\<close>

definition plus_token :: "jsstring \<Rightarrow> bool" where
  "plus_token = cat (many 4 8 alnum) (cat (lit (js ''+'')) (many 2 4 alnum))"

text \<open>
  A coordinate token: an optional \<open>-\<close>, 1 to 3 digits, \<open>.\<close> or \<open>,\<close>, 3 to 12 digits.
\<close>

definition coord_token :: "jsstring \<Rightarrow> bool" where
  "coord_token =
     cat (opt (lit (js ''-'')))
       (cat (digits 1 3) (cat (either (lit (js ''.'')) (lit (js '',''))) (digits 3 12)))"

text \<open>A date: day, month and year in digits, separated by \<open>/\<close>.\<close>

definition is_date :: "jsstring \<Rightarrow> bool" where
  "is_date =
     cat (digits 1 2) (cat (lit (js ''/'')) (cat (digits 1 2) (cat (lit (js ''/'')) (digits 2 4))))"

text \<open>
  A time: an hour of \<open>h\<close> to 2 digits, \<open>:\<close>, two digits of minutes, and optionally \<open>:\<close>
  and two digits of seconds.
\<close>

definition is_time :: "nat \<Rightarrow> jsstring \<Rightarrow> bool" where
  "is_time h =
     cat (digits h 2) (cat (lit (js '':'')) (cat (digits 2 2)
       (opt (cat (lit (js '':'')) (digits 2 2)))))"

text \<open>The marker AM or PM, in upper or lower case.\<close>

definition is_am_pm :: "jsstring \<Rightarrow> bool" where
  "is_am_pm = either (cat (letter (of_char CHR ''A'')) (letter (of_char CHR ''M'')))
                     (cat (letter (of_char CHR ''P'')) (letter (of_char CHR ''M'')))"

text \<open>White space: at least one white-space character.\<close>

definition is_spaces :: "jsstring \<Rightarrow> bool" where
  "is_spaces = at_least 1 is_space"

text \<open>
  A time with an hour of 1 or 2 digits followed, after at most one white-space
  character, by a marker; and the same where the marker may be missing.
\<close>

definition time_marker :: "jsstring \<Rightarrow> bool" where
  "time_marker = cat (is_time 1) (cat (many 0 1 is_space) is_am_pm)"

definition time_opt_marker :: "jsstring \<Rightarrow> bool" where
  "time_opt_marker = cat (is_time 1) (cat (many 0 1 is_space) (opt is_am_pm))"

text \<open>
  The shapes of the two groups of the four timestamp patterns, in the order of
  \<open>timestampPatterns\<close>. \<open>occurs_at sh t n\<close>: at index \<open>n\<close> of \<open>t\<close> a text \<open>u\<close> of the first
  shape, white space and a text \<open>v\<close> of the second shape follow one another
  (\<open>ts_parts\<close>).
\<close>

type_synonym ts_shape = "(jsstring \<Rightarrow> bool) \<times> (jsstring \<Rightarrow> bool)"

definition ts_shapes :: "ts_shape list" where
  "ts_shapes = [(time_marker, is_date), (is_date, time_opt_marker),
                (is_time 2, is_date), (is_date, is_time 2)]"

definition ts_parts :: "ts_shape \<Rightarrow> jsstring \<Rightarrow> jsstring \<Rightarrow> jsstring \<Rightarrow> bool" where
  "ts_parts sh u sp v = (fst sh u \<and> is_spaces sp \<and> snd sh v)"

definition occurs_at :: "ts_shape \<Rightarrow> jsstring \<Rightarrow> nat \<Rightarrow> bool" where
  "occurs_at sh t n =
     (\<exists>p u sp v q. t = p @ u @ sp @ v @ q \<and> length p = n \<and> ts_parts sh u sp v)"

definition occurs :: "ts_shape \<Rightarrow> jsstring \<Rightarrow> bool" where
  "occurs sh t = (\<exists>n. occurs_at sh t n)"

text \<open>
  \<open>ts_found sh t r\<close>: \<open>r\<close> is the timestamp read at the first place of \<open>t\<close> where the
  shape \<open>sh\<close> occurs, from the longest text of that shape that starts there: its two
  texts joined by a space and trimmed.
\<close>

definition ts_found :: "ts_shape \<Rightarrow> jsstring \<Rightarrow> jsstring \<Rightarrow> bool" where
  "ts_found sh t r =
     (\<exists>p u sp v q. t = p @ u @ sp @ v @ q \<and> ts_parts sh u sp v \<and>
        \<not> (\<exists>n < length p. occurs_at sh t n) \<and>
        \<not> (\<exists>u' sp' v' q'. u @ sp @ v @ q = u' @ sp' @ v' @ q' \<and> ts_parts sh u' sp' v' \<and>
             length (u @ sp @ v) < length (u' @ sp' @ v')) \<and>
        r = trim (u @ js '' '' @ v))"

text \<open>
  \<open>token_at T t n\<close>: a text of shape \<open>T\<close> starts at index \<open>n\<close> of \<open>t\<close>; \<open>contains T t\<close>:
  one starts somewhere.
\<close>

definition token_at :: "(jsstring \<Rightarrow> bool) \<Rightarrow> jsstring \<Rightarrow> nat \<Rightarrow> bool" where
  "token_at T t n = (\<exists>p w q. t = p @ w @ q \<and> length p = n \<and> T w)"

definition contains :: "(jsstring \<Rightarrow> bool) \<Rightarrow> jsstring \<Rightarrow> bool" where
  "contains T t = (\<exists>n. token_at T t n)"

text \<open>
  \<open>scans T t ws\<close>: \<open>ws\<close> are texts of shape \<open>T\<close> found in \<open>t\<close> from left to right, each
  starting at the first index (of what is left of \<open>t\<close>) where a text of that shape
  starts and being the longest text of that shape that starts there, the scan going on
  behind it; and behind the last one no text of that shape is left.
\<close>

inductive scans :: "(jsstring \<Rightarrow> bool) \<Rightarrow> jsstring \<Rightarrow> jsstring list \<Rightarrow> bool" where
  scans_none: "\<not> contains T t \<Longrightarrow> scans T t []"
| scans_next: "t = p @ w @ q \<Longrightarrow> T w \<Longrightarrow> \<not> (\<exists>n < length p. token_at T t n) \<Longrightarrow>
               scans T q ws \<Longrightarrow>
               \<not> (\<exists>w' q'. T w' \<and> w @ q = w' @ q' \<and> length w < length w') \<Longrightarrow>
               scans T t (w # ws)"

text \<open>
  The number a coordinate token denotes: its digits, with as many decimal places as
  there are digits behind the separator, negative with a sign.
\<close>

definition token_value :: "jsstring \<Rightarrow> jsnum \<Rightarrow> bool" where
  "token_value w v =
     (\<exists>sg d1 sep d2. w = sg @ d1 @ sep @ d2 \<and> opt (lit (js ''-'')) sg \<and> digits 1 3 d1 \<and>
        either (lit (js ''.'')) (lit (js '','')) sep \<and> digits 3 12 d2 \<and>
        v = Dec (sg \<noteq> []) (digits_val (d1 @ d2)) (length d2))"

definition in_range :: "nat \<Rightarrow> nat \<Rightarrow> jsnum \<Rightarrow> bool" where
  "in_range lo hi v = (num_ge v lo \<and> num_le v hi)"

section \<open>The patterns and the suffix as the specification words them\<close>

text \<open>
  The timestamp patterns as the specification describes them: the same four
  combinations of a time and a date, each time with optional seconds and an optional
  AM/PM marker.
\<close>

definition claimed_time :: "nat \<Rightarrow> regex" where
  "claimed_time h = Seq (time_re h) (Seq opt_space (Rep 0 (Some 1) am_pm))"

definition claimed_timestampPatterns :: "regex list" where
  "claimed_timestampPatterns =
     [Seq (Grp 1 (claimed_time 1)) (Seq spaces (Grp 2 date_re)),
      Seq (Grp 1 date_re) (Seq spaces (Grp 2 (claimed_time 1))),
      Seq (Grp 1 (claimed_time 2)) (Seq spaces (Grp 2 date_re)),
      Seq (Grp 1 date_re) (Seq spaces (Grp 2 (claimed_time 2)))]"

text \<open>
  The plus code as the specification describes it: the first match, and the address
  suffix read from the text that starts immediately after the match.
\<close>

definition claimed_findPlusCode :: "jsstring \<Rightarrow> jsstring" where
  "claimed_findPlusCode normalizedText =
     (case exec True simplePlusCodeRegex normalizedText of
        None \<Rightarrow> not_found
      | Some (i, m, caps) \<Rightarrow>
          m @ (case exec False addressCleanupRegex (drop (i + length m) normalizedText) of
                 None \<Rightarrow> []
               | Some (i', m', caps') \<Rightarrow> replace_first False trailingSeparators [] m'))"

section \<open>The matcher finds exactly what the pattern matches\<close>

declare rep.simps [simp del] exec_from.simps [simp del] match_all_from.simps [simp del]
  replace_all_from.simps [simp del] split_from.simps [simp del] nat_digits.simps [simp del]
  strip_zeros.simps [simp del]

lemma steps_Rep_stay: "mx = Some 0 \<or> mn = 0 \<Longrightarrow> steps ic (Rep mn mx r) x x"
  unfolding steps_def by (auto intro: wm_RepMax wm_RepStop)

lemma steps_Rep_step:
  assumes "steps ic r x z" and "steps ic (Rep (mn - 1) (dec mx) r) z y" and "mx \<noteq> Some 0"
    and "mn = 0 \<longrightarrow> length (fst (snd z)) < length (fst (snd x))"
  shows "steps ic (Rep mn mx r) x y"
proof -
  from assms(1) obtain u where u: "fst (snd x) = u @ fst (snd z)" "fst z = fst x + length u"
    "wm ic r (fst x) u (fst (snd z))" unfolding steps_def by blast
  from assms(2) obtain v where v: "fst (snd z) = v @ fst (snd y)" "fst y = fst z + length v"
    "wm ic (Rep (mn - 1) (dec mx) r) (fst z) v (fst (snd y))" unfolding steps_def by blast
  have "mn = 0 \<longrightarrow> u \<noteq> []" using assms(4) u(1) by auto
  with u v assms(3) have "wm ic (Rep mn mx r) (fst x) (u @ v) (fst (snd y))"
    by (intro wm_RepStep) auto
  with u v show ?thesis unfolding steps_def by (intro exI [of _ "u @ v"]) auto
qed

lemma rep_stay: "mx = Some 0 \<or> mn = 0 \<Longrightarrow> x \<in> set (rep f mn mx x)"
  by (subst rep.simps) auto

lemma rep_iter:
  "z \<in> set (f x) \<Longrightarrow> mx \<noteq> Some 0 \<Longrightarrow>
   mn = 0 \<longrightarrow> length (fst (snd z)) < length (fst (snd x)) \<Longrightarrow>
   y \<in> set (rep f (mn - 1) (dec mx) z) \<Longrightarrow> y \<in> set (rep f mn mx x)"
  by (subst rep.simps) auto

lemma rep_cases:
  assumes "y \<in> set (rep f mn mx x)"
  obtains "y = x" "mx = Some 0 \<or> mn = 0"
  | z where "mx \<noteq> Some 0" "z \<in> set (f x)"
      "mn = 0 \<longrightarrow> length (fst (snd z)) < length (fst (snd x))"
      "y \<in> set (rep f (mn - 1) (dec mx) z)"
  using assms by (subst (asm) rep.simps) (auto split: if_splits)

lemma rep_sound:
  "(\<And>x y. y \<in> set (f x) \<Longrightarrow> steps ic r x y) \<Longrightarrow> y \<in> set (rep f mn mx x) \<Longrightarrow>
   steps ic (Rep mn mx r) x y"
proof (induction f mn mx x arbitrary: y rule: rep.induct)
  case (1 f mn mx x)
  from "1.prems"(2) show ?case
  proof (cases rule: rep_cases)
    case 1
    then show ?thesis by (simp add: steps_Rep_stay)
  next
    case (2 z)
    have "steps ic (Rep (mn - 1) (dec mx) r) z y"
    proof (cases "mn = 0")
      case True
      with 2 "1.IH"(2) [of z y] "1.prems"(1) show ?thesis by simp
    next
      case False
      with 2 "1.IH"(1) [of z y] "1.prems"(1) show ?thesis by simp
    qed
    with "1.prems"(1) [OF 2(2)] 2(1,3) show ?thesis by (blast intro: steps_Rep_step)
  qed
qed

lemma steps_Seq: "steps ic a x z \<Longrightarrow> steps ic b z y \<Longrightarrow> steps ic (Seq a b) x y"
proof -
  assume "steps ic a x z" and "steps ic b z y"
  then obtain u v where u: "fst (snd x) = u @ fst (snd z)" "fst z = fst x + length u"
    "wm ic a (fst x) u (fst (snd z))" and v: "fst (snd z) = v @ fst (snd y)"
    "fst y = fst z + length v" "wm ic b (fst z) v (fst (snd y))" unfolding steps_def by blast
  from u v have "wm ic (Seq a b) (fst x) (u @ v) (fst (snd y))"
    by (intro wm_Seq) auto
  with u v show ?thesis unfolding steps_def by (intro exI [of _ "u @ v"]) auto
qed

lemma steps_Alt: "steps ic a x y \<or> steps ic b x y \<Longrightarrow> steps ic (Alt a b) x y"
  unfolding steps_def by (auto intro: wm_Alt1 wm_Alt2)

lemma steps_Grp: "steps ic r (i, rest, caps) (j, rest', caps') \<Longrightarrow>
  steps ic (Grp n r) (i, rest, caps) (j, rest', caps'')"
  unfolding steps_def by (auto intro: wm_Grp)

lemma matcher_sound: "y \<in> set (matcher ic r x) \<Longrightarrow> steps ic r x y"
proof (induction r arbitrary: x y)
  case (Chr p)
  then show ?case
    by (cases x) (auto simp: steps_def split: list.splits if_splits intro: wm_Chr)
next
  case (Cls items)
  then show ?case
    by (cases x) (auto simp: steps_def split: list.splits if_splits intro: wm_Cls)
next
  case (Seq a b)
  from Seq.prems obtain z where "z \<in> set (matcher ic a x)" "y \<in> set (matcher ic b z)"
    by auto
  with Seq.IH show ?case by (blast intro: steps_Seq)
next
  case (Alt a b)
  from Alt.prems have "y \<in> set (matcher ic a x) \<or> y \<in> set (matcher ic b x)" by simp
  with Alt.IH show ?case by (blast intro: steps_Alt)
next
  case (Rep mn mx r)
  from Rep.prems have "y \<in> set (rep (matcher ic r) mn mx x)" by simp
  with Rep.IH show ?case by (rule rep_sound)
next
  case (Grp n r)
  obtain i rest caps where x: "x = (i, rest, caps)" by (cases x)
  with Grp.prems obtain j rest' caps' where
    "(j, rest', caps') \<in> set (matcher ic r (i, rest, caps))"
    "y = (j, rest', (n, take (j - i) rest) # caps')" by auto
  with Grp.IH x show ?case by (blast intro: steps_Grp)
next
  case Bos
  then show ?case by (cases x) (auto simp: steps_def split: if_splits intro: wm_Bos)
next
  case Eos
  then show ?case by (cases x) (auto simp: steps_def split: if_splits intro: wm_Eos)
qed

lemma matcher_complete:
  "wm ic r i w after \<Longrightarrow>
   \<exists>caps'. (i + length w, after, caps') \<in> set (matcher ic r (i, w @ after, caps))"
proof (induction arbitrary: caps rule: wm.induct)
  case (wm_Seq ic a i u v after b)
  from wm_Seq.IH(1) [of caps] obtain c1 where
    c1: "(i + length u, v @ after, c1) \<in> set (matcher ic a (i, u @ v @ after, caps))" by auto
  from wm_Seq.IH(2) [of c1] obtain c2 where
    c2: "(i + length u + length v, after, c2) \<in> set (matcher ic b (i + length u, v @ after, c1))"
    by auto
  from c1 have "set (matcher ic b (i + length u, v @ after, c1)) \<subseteq>
      set (matcher ic (Seq a b) (i, u @ v @ after, caps))" by auto
  with c2 have "(i + length u + length v, after, c2) \<in>
      set (matcher ic (Seq a b) (i, u @ v @ after, caps))" by blast
  then show ?case by (auto simp: add.assoc)
next
  case (wm_Alt1 ic a i w after b)
  from wm_Alt1.IH [of caps] show ?case by auto
next
  case (wm_Alt2 ic b i w after a)
  from wm_Alt2.IH [of caps] show ?case by auto
next
  case (wm_Grp ic r i w after n)
  from wm_Grp.IH [of caps] obtain c1 where
    "(i + length w, after, c1) \<in> set (matcher ic r (i, w @ after, caps))" by auto
  then have "(i + length w, after, (n, take (i + length w - i) (w @ after)) # c1) \<in>
      set (matcher ic (Grp n r) (i, w @ after, caps))" by force
  then show ?case by blast
next
  case (wm_RepMax ic mn r i after)
  then show ?case by (auto intro: rep_stay)
next
  case (wm_RepStop ic mx r i after)
  then show ?case by (auto intro: rep_stay)
next
  case (wm_RepStep mx ic r i u v after mn)
  from wm_RepStep.IH(1) [of caps] obtain c1 where
    c1: "(i + length u, v @ after, c1) \<in> set (matcher ic r (i, u @ v @ after, caps))" by auto
  from wm_RepStep.IH(2) [of c1] obtain c2 where
    c2: "(i + length u + length v, after, c2) \<in>
      set (rep (matcher ic r) (mn - 1) (dec mx) (i + length u, v @ after, c1))"
    by auto
  have "(i + length u + length v, after, c2) \<in>
      set (rep (matcher ic r) mn mx (i, u @ v @ after, caps))"
    using c1 wm_RepStep.hyps(1) _ c2
  proof (rule rep_iter)
    show "mn = 0 \<longrightarrow> length (fst (snd (i + length u, v @ after, c1))) <
        length (fst (snd (i, u @ v @ after, caps)))"
      using wm_RepStep.hyps(3) by auto
  qed
  then show ?case by (auto simp: add.assoc)
qed (auto)

section \<open>What \<open>exec\<close> reports\<close>

lemma matcher_empty_iff: "matcher ic r (i, s, caps) = [] \<longleftrightarrow> \<not> starts ic r i s"
proof
  assume e: "matcher ic r (i, s, caps) = []"
  show "\<not> starts ic r i s"
  proof
    assume "starts ic r i s"
    then obtain w after where "s = w @ after" "wm ic r i w after" unfolding starts_def by blast
    with matcher_complete [of ic r i w after caps] e show False by auto
  qed
next
  assume n: "\<not> starts ic r i s"
  show "matcher ic r (i, s, caps) = []"
  proof (rule ccontr)
    assume "matcher ic r (i, s, caps) \<noteq> []"
    then obtain y where "y \<in> set (matcher ic r (i, s, caps))" by (cases "matcher ic r (i, s, caps)") auto
    from matcher_sound [OF this] n show False unfolding steps_def starts_def by auto
  qed
qed

lemma matcher_head:
  assumes "matcher ic r (i, s, caps) = (j, rest', caps') # ys"
  shows "\<exists>w. s = w @ rest' \<and> j = i + length w \<and> take (j - i) s = w \<and> wm ic r i w rest'"
proof -
  from assms have "(j, rest', caps') \<in> set (matcher ic r (i, s, caps))" by simp
  from matcher_sound [OF this] show ?thesis unfolding steps_def by auto
qed

lemma exec_from_miss:
  "\<not> starts ic r i s \<Longrightarrow>
   exec_from ic r i s = (case s of [] \<Rightarrow> None | c # cs \<Rightarrow> exec_from ic r (Suc i) cs)"
  by (subst exec_from.simps) (simp add: matcher_empty_iff [symmetric, where caps = "[]"])

lemma exec_from_hit:
  assumes "starts ic r i s"
  shows "\<exists>w after caps. s = w @ after \<and> wm ic r i w after \<and>
     (i + length w, after, caps) \<in> set (matcher ic r (i, s, [])) \<and>
     exec_from ic r i s = Some (i, w, caps)"
proof -
  from assms have "matcher ic r (i, s, []) \<noteq> []" by (simp add: matcher_empty_iff)
  then obtain j rest' caps ys where m: "matcher ic r (i, s, []) = (j, rest', caps) # ys"
    by (cases "matcher ic r (i, s, [])") auto
  from matcher_head [OF m] obtain w where w: "s = w @ rest'" "j = i + length w"
    "take (j - i) s = w" "wm ic r i w rest'" by blast
  have "exec_from ic r i s = Some (i, w, caps)"
    by (subst exec_from.simps) (simp add: m w(3))
  moreover have "(i + length w, rest', caps) \<in> set (matcher ic r (i, s, []))"
    using m w(2) by simp
  ultimately show ?thesis using w by blast
qed

lemma all_le_Cons:
  "(\<forall>k \<le> length (c # cs). P k (drop k (c # cs))) \<longleftrightarrow>
   P 0 (c # cs) \<and> (\<forall>k \<le> length cs. P (Suc k) (drop k cs))"
  using All_less_Suc2 [of "Suc (length cs)" "\<lambda>k. P k (drop k (c # cs))"]
  by (simp add: less_Suc_eq_le)

lemma exec_from_None:
  "exec_from ic r i s = None \<longleftrightarrow> (\<forall>k \<le> length s. \<not> starts ic r (i + k) (drop k s))"
proof (induction s arbitrary: i)
  case Nil
  show ?case
  proof (cases "starts ic r i []")
    case True
    with exec_from_hit [OF True] show ?thesis by auto
  next
    case False
    with exec_from_miss [OF False] show ?thesis by simp
  qed
next
  case (Cons c cs)
  have all: "(\<forall>k \<le> length (c # cs). \<not> starts ic r (i + k) (drop k (c # cs))) \<longleftrightarrow>
      \<not> starts ic r i (c # cs) \<and> (\<forall>k \<le> length cs. \<not> starts ic r (Suc i + k) (drop k cs))"
    using all_le_Cons [of c cs "\<lambda>k s. \<not> starts ic r (i + k) s"] by simp
  show ?case
  proof (cases "starts ic r i (c # cs)")
    case True
    with exec_from_hit [OF True] all show ?thesis by auto
  next
    case False
    with exec_from_miss [OF False] all Cons.IH [of "Suc i"] show ?thesis by simp
  qed
qed

text \<open>
  What \<open>exec\<close> reports: the match starts at the first index where the pattern matches,
  and the matched text and the captures are those of one way the pattern matches
  there.
\<close>

lemma exec_from_Some:
  "exec_from ic r i s = Some (j, m, caps) \<Longrightarrow>
   \<exists>k after. j = i + k \<and> k \<le> length s \<and> drop k s = m @ after \<and>
     (\<forall>k' < k. \<not> starts ic r (i + k') (drop k' s)) \<and> wm ic r j m after \<and>
     (j + length m, after, caps) \<in> set (matcher ic r (j, drop k s, []))"
proof (induction s arbitrary: i)
  case Nil
  show ?case
  proof (cases "starts ic r i []")
    case True
    from exec_from_hit [OF True] Nil show ?thesis by (intro exI [of _ 0]) auto
  next
    case False
    with exec_from_miss [OF False] Nil show ?thesis by simp
  qed
next
  case (Cons c cs)
  show ?case
  proof (cases "starts ic r i (c # cs)")
    case True
    from exec_from_hit [OF True] Cons.prems show ?thesis by (intro exI [of _ 0]) auto
  next
    case False
    with exec_from_miss [OF False] Cons.prems have "exec_from ic r (Suc i) cs = Some (j, m, caps)"
      by simp
    from Cons.IH [OF this] obtain k after where k: "j = Suc i + k" "k \<le> length cs"
      "drop k cs = m @ after" "\<forall>k' < k. \<not> starts ic r (Suc i + k') (drop k' cs)"
      "wm ic r j m after" "(j + length m, after, caps) \<in> set (matcher ic r (j, drop k cs, []))"
      by blast
    have "\<forall>k' < Suc k. \<not> starts ic r (i + k') (drop k' (c # cs))"
      using False k(4) by (auto simp: less_Suc_eq_0_disj)
    with k show ?thesis by (intro exI [of _ "Suc k"] exI [of _ after]) auto
  qed
qed

text \<open>The match reported is the first one the matcher lists.\<close>

lemma exec_from_Some_head:
  "exec_from ic r i s = Some (j, m, caps) \<Longrightarrow>
   \<exists>k after ys. j = i + k \<and> k \<le> length s \<and> drop k s = m @ after \<and>
     (\<forall>k' < k. \<not> starts ic r (i + k') (drop k' s)) \<and>
     matcher ic r (j, drop k s, []) = (j + length m, after, caps) # ys"
proof (induction s arbitrary: i)
  case Nil
  show ?case
  proof (cases "matcher ic r (i, [], [])")
    case Nil': Nil
    with Nil show ?thesis by (subst (asm) exec_from.simps) simp
  next
    case (Cons y ys)
    obtain j' rest' caps' where y: "y = (j', rest', caps')" by (cases y)
    from matcher_head [OF Cons [unfolded y]] have "rest' = []" "j' = i" by auto
    with Nil Cons y show ?thesis by (subst (asm) exec_from.simps) auto
  qed
next
  case (Cons c cs)
  show ?case
  proof (cases "matcher ic r (i, c # cs, [])")
    case Nil
    then have no: "\<not> starts ic r i (c # cs)" by (simp add: matcher_empty_iff)
    from Nil Cons.prems have "exec_from ic r (Suc i) cs = Some (j, m, caps)"
      by (subst (asm) exec_from.simps) simp
    from Cons.IH [OF this] obtain k after ys where k: "j = Suc i + k" "k \<le> length cs"
      "drop k cs = m @ after" "\<forall>k' < k. \<not> starts ic r (Suc i + k') (drop k' cs)"
      "matcher ic r (j, drop k cs, []) = (j + length m, after, caps) # ys"
      by blast
    have "\<forall>k' < Suc k. \<not> starts ic r (i + k') (drop k' (c # cs))"
      using no k(4) by (auto simp: less_Suc_eq_0_disj)
    with k show ?thesis
      by (intro exI [of _ "Suc k"] exI [of _ after] exI [of _ ys]) (auto simp del: matcher.simps)
  next
    case (Cons y ys)
    obtain j' rest' caps' where y: "y = (j', rest', caps')" by (cases y)
    from matcher_head [OF Cons [unfolded y]] obtain w where w: "c # cs = w @ rest'"
      "j' = i + length w" "take (j' - i) (c # cs) = w" by blast
    from Cons y Cons.prems have "j = i" "m = take (j' - i) (c # cs)" "caps = caps'"
      by (subst (asm) exec_from.simps, simp)+
    with w Cons y show ?thesis
      by (intro exI [of _ 0] exI [of _ rest'] exI [of _ ys]) (auto simp del: matcher.simps)
  qed
qed

section \<open>What the constructs match\<close>

inductive_cases wm_ChrE: "wm ic (Chr p) i w after"
inductive_cases wm_ClsE: "wm ic (Cls items) i w after"
inductive_cases wm_SeqE: "wm ic (Seq a b) i w after"
inductive_cases wm_AltE: "wm ic (Alt a b) i w after"
inductive_cases wm_GrpE: "wm ic (Grp n r) i w after"
inductive_cases wm_RepE: "wm ic (Rep mn mx r) i w after"

lemma wm_Chr_iff: "wm ic (Chr p) i w after \<longleftrightarrow> (\<exists>c. w = [c] \<and> chr_match ic p c)"
  by (blast elim: wm_ChrE intro: wm_Chr)

lemma wm_Cls_iff: "wm ic (Cls items) i w after \<longleftrightarrow> (\<exists>c. w = [c] \<and> cls_match ic items c)"
  by (blast elim: wm_ClsE intro: wm_Cls)

lemma wm_Seq_iff:
  "wm ic (Seq a b) i w after \<longleftrightarrow>
   (\<exists>u v. w = u @ v \<and> wm ic a i u (v @ after) \<and> wm ic b (i + length u) v after)"
proof
  assume "wm ic (Seq a b) i w after"
  then show "\<exists>u v. w = u @ v \<and> wm ic a i u (v @ after) \<and> wm ic b (i + length u) v after"
    by (rule wm_SeqE) blast
next
  assume "\<exists>u v. w = u @ v \<and> wm ic a i u (v @ after) \<and> wm ic b (i + length u) v after"
  then show "wm ic (Seq a b) i w after" by (blast intro: wm_Seq)
qed

lemma wm_Alt_iff: "wm ic (Alt a b) i w after \<longleftrightarrow> wm ic a i w after \<or> wm ic b i w after"
  by (blast elim: wm_AltE intro: wm_Alt1 wm_Alt2)

lemma wm_Grp_iff: "wm ic (Grp n r) i w after \<longleftrightarrow> wm ic r i w after"
  by (blast elim: wm_GrpE intro: wm_Grp)

lemma wm_Rep_Some0: "wm ic (Rep mn (Some 0) r) i w after \<longleftrightarrow> w = []"
  by (blast elim: wm_RepE intro: wm_RepMax)

lemma wm_opt_iff:
  "wm ic (Rep 0 (Some (Suc 0)) r) i w after \<longleftrightarrow> w = [] \<or> (w \<noteq> [] \<and> wm ic r i w after)"
proof
  assume "wm ic (Rep 0 (Some (Suc 0)) r) i w after"
  then show "w = [] \<or> (w \<noteq> [] \<and> wm ic r i w after)"
    by (rule wm_RepE) (auto simp: wm_Rep_Some0)
next
  assume "w = [] \<or> (w \<noteq> [] \<and> wm ic r i w after)"
  then show "wm ic (Rep 0 (Some (Suc 0)) r) i w after"
  proof
    assume "w = []" then show ?thesis by (simp add: wm_RepStop)
  next
    assume w: "w \<noteq> [] \<and> wm ic r i w after"
    have "wm ic (Rep 0 (Some (Suc 0)) r) i (w @ []) after"
      by (rule wm_RepStep) (use w in \<open>auto intro: wm_RepMax\<close>)
    then show ?thesis by simp
  qed
qed

text \<open>A quantifier on a class: as many characters of the class as the quantifier allows.\<close>

lemma wm_Rep_Cls_fwd:
  "wm ic r0 i w after \<Longrightarrow> r0 = Rep mn mx (Cls items) \<Longrightarrow>
   (case mx of None \<Rightarrow> True | Some n \<Rightarrow> mn \<le> n) \<Longrightarrow>
   within mn mx (length w) \<and> list_all (cls_match ic items) w"
proof (induction arbitrary: mn mx rule: wm.induct)
  case (wm_RepMax ic mn' r i after)
  then show ?case by (auto simp: within_def)
next
  case (wm_RepStop ic mx' r i after)
  then show ?case by (auto simp: within_def split: option.splits)
next
  case (wm_RepStep mx' ic r i u v after mn')
  from wm_RepStep.prems(1) have eq: "mn' = mn" "mx' = mx" "r = Cls items" by auto
  from wm_RepStep.hyps(2) eq obtain c where c: "u = [c]" "cls_match ic items c"
    by (auto simp: wm_Cls_iff)
  have "within (mn - 1) (dec mx) (length v) \<and> list_all (cls_match ic items) v"
    using wm_RepStep.IH(2) [of "mn - 1" "dec mx"] eq wm_RepStep.hyps(1) wm_RepStep.prems(2)
    by (cases mx) (auto simp: within_def)
  with c wm_RepStep.hyps(1) eq show ?case
    by (cases mx) (auto simp: within_def)
qed simp_all

lemma wm_Rep_Cls_bwd:
  "within mn mx (length w) \<Longrightarrow> list_all (cls_match ic items) w \<Longrightarrow>
   wm ic (Rep mn mx (Cls items)) i w after"
proof (induction w arbitrary: mn mx i)
  case Nil
  then show ?case by (auto simp: within_def intro: wm_RepStop)
next
  case (Cons c cs)
  have "wm ic (Rep mn mx (Cls items)) i ([c] @ cs) after"
  proof (rule wm_RepStep)
    show "mx \<noteq> Some 0" using Cons.prems(1) by (auto simp: within_def)
    show "wm ic (Cls items) i [c] (cs @ after)" using Cons.prems(2) by (auto intro: wm_Cls)
    show "mn = 0 \<longrightarrow> [c] \<noteq> []" by simp
    show "wm ic (Rep (mn - 1) (dec mx) (Cls items)) (i + length [c]) cs after"
      using Cons.prems by (intro Cons.IH) (cases mx; auto simp: within_def)+
  qed
  then show ?case by simp
qed

lemma wm_Rep_Cls_iff:
  "(case mx of None \<Rightarrow> True | Some n \<Rightarrow> mn \<le> n) \<Longrightarrow>
   wm ic (Rep mn mx (Cls items)) i w after \<longleftrightarrow>
     within mn mx (length w) \<and> list_all (cls_match ic items) w"
  using wm_Rep_Cls_fwd [of ic "Rep mn mx (Cls items)" i w after mn mx items]
    wm_Rep_Cls_bwd [of mn mx w ic items i after]
  by blast

section \<open>Captures\<close>

lemma rep_caps:
  "(\<And>x y. y \<in> set (f x) \<Longrightarrow> snd (snd y) = snd (snd x)) \<Longrightarrow> y \<in> set (rep f mn mx x) \<Longrightarrow>
   snd (snd y) = snd (snd x)"
proof (induction f mn mx x arbitrary: y rule: rep.induct)
  case (1 f mn mx x)
  from "1.prems"(2) show ?case
  proof (cases rule: rep_cases)
    case 1
    then show ?thesis by simp
  next
    case (2 z)
    have "snd (snd y) = snd (snd z)"
    proof (cases "mn = 0")
      case True
      with 2 "1.IH"(2) [of z y] "1.prems"(1) show ?thesis by simp
    next
      case False
      with 2 "1.IH"(1) [of z y] "1.prems"(1) show ?thesis by simp
    qed
    with "1.prems"(1) [OF 2(2)] show ?thesis by simp
  qed
qed

lemma matcher_caps: "no_grp r \<Longrightarrow> y \<in> set (matcher ic r x) \<Longrightarrow> snd (snd y) = snd (snd x)"
proof (induction r arbitrary: x y)
  case (Seq a b)
  from Seq.prems(1) have na: "no_grp a" and nb: "no_grp b" by simp_all
  from Seq.prems(2) obtain z where z: "z \<in> set (matcher ic a x)" "y \<in> set (matcher ic b z)"
    by auto
  from Seq.IH(1) [OF na z(1)] Seq.IH(2) [OF nb z(2)] show ?case by simp
next
  case (Rep mn mx r)
  from Rep.prems(1) have nr: "no_grp r" by simp
  from Rep.prems(2) have mem: "y \<in> set (rep (matcher ic r) mn mx x)" by simp
  show ?case by (rule rep_caps [OF _ mem]) (rule Rep.IH [OF nr])
next
  case (Chr p)
  then show ?case by (cases x) (auto split: list.splits if_splits)
next
  case (Cls items)
  then show ?case by (cases x) (auto split: list.splits if_splits)
next
  case (Alt a b)
  from Alt.prems(1) have na: "no_grp a" and nb: "no_grp b" by simp_all
  from Alt.prems(2) have "y \<in> set (matcher ic a x) \<or> y \<in> set (matcher ic b x)" by simp
  with Alt.IH(1) [OF na] Alt.IH(2) [OF nb] show ?case by blast
next
  case (Grp n r)
  then show ?case by simp
next
  case Bos
  then show ?case by (cases x) (auto split: if_splits)
next
  case Eos
  then show ?case by (cases x) (auto split: if_splits)
qed

lemma matcher_Seq_mem:
  "y \<in> set (matcher ic (Seq a b) x) \<longleftrightarrow> (\<exists>z \<in> set (matcher ic a x). y \<in> set (matcher ic b z))"
  by simp

text \<open>A capturing group whose body has no group inside records the text its body matched.\<close>

lemma matcher_Grp:
  assumes "no_grp r" and "(j, rest', caps') \<in> set (matcher ic (Grp n r) (i, rest, caps))"
  shows "\<exists>w. rest = w @ rest' \<and> j = i + length w \<and> wm ic r i w rest' \<and> caps' = (n, w) # caps"
proof -
  from assms(2) obtain c where c: "(j, rest', c) \<in> set (matcher ic r (i, rest, caps))"
    "caps' = (n, take (j - i) rest) # c" by auto
  from matcher_caps [OF assms(1) c(1)] have "c = caps" by simp
  moreover from matcher_sound [OF c(1)] obtain w where "rest = w @ rest'" "j = i + length w"
    "wm ic r i w rest'" unfolding steps_def by auto
  ultimately show ?thesis using c(2) by auto
qed

text \<open>The shape of the four timestamp patterns: two groups with a separator between them.\<close>

lemma matcher_two_groups:
  assumes "no_grp a" "no_grp s" "no_grp b"
    and "(j, rest', caps') \<in> set (matcher ic (Seq (Grp g1 a) (Seq s (Grp g2 b))) (i, rest, []))"
  shows "\<exists>u sp v. rest = u @ sp @ v @ rest' \<and> caps' = [(g2, v), (g1, u)] \<and>
    wm ic a i u (sp @ v @ rest') \<and> wm ic s (i + length u) sp (v @ rest') \<and>
    wm ic b (i + length u + length sp) v rest'"
proof -
  from assms(4) obtain z1 z2 where z: "z1 \<in> set (matcher ic (Grp g1 a) (i, rest, []))"
    "z2 \<in> set (matcher ic s z1)" "(j, rest', caps') \<in> set (matcher ic (Grp g2 b) z2)"
    unfolding matcher_Seq_mem by blast
  obtain j1 r1 c1 where z1: "z1 = (j1, r1, c1)" by (cases z1)
  obtain j2 r2 c2 where z2: "z2 = (j2, r2, c2)" by (cases z2)
  from matcher_Grp [OF assms(1) z(1) [unfolded z1]] obtain u where
    u: "rest = u @ r1" "j1 = i + length u" "wm ic a i u r1" "c1 = [(g1, u)]" by auto
  from matcher_caps [OF assms(2) z(2)] z1 z2 have c2: "c2 = c1" by simp
  from matcher_sound [OF z(2)] z1 z2 obtain sp where
    sp: "r1 = sp @ r2" "j2 = j1 + length sp" "wm ic s j1 sp r2" unfolding steps_def by auto
  from matcher_Grp [OF assms(3) z(3) [unfolded z2]] obtain v where
    v: "r2 = v @ rest'" "j = j2 + length v" "wm ic b j2 v rest'" "caps' = (g2, v) # c2" by auto
  from u sp v c2 show ?thesis by (intro exI [of _ u] exI [of _ sp] exI [of _ v]) auto
qed

text \<open>
  The first match of such a pattern ends with the first match that the second group
  lists behind the separator.
\<close>

lemma two_groups_head:
  assumes "no_grp a" "no_grp s" "no_grp b"
    and m: "matcher ic (Seq (Grp g1 a) (Seq s (Grp g2 b))) (i, rest, []) = (j, rest', caps') # others"
  shows "\<exists>u sp v cb tl. rest = u @ sp @ v @ rest' \<and> caps' = [(g2, v), (g1, u)] \<and>
    wm ic a i u (sp @ v @ rest') \<and> wm ic s (i + length u) sp (v @ rest') \<and>
    wm ic b (i + length u + length sp) v rest' \<and>
    matcher ic b (i + length u + length sp, v @ rest', [(g1, u)]) =
      (i + length u + length sp + length v, rest', cb) # tl"
proof -
  have hd: "\<exists>y \<in> set ys. \<exists>t'. g y = h # t'" if "concat (map g ys) = h # t"
    for g :: "mstate \<Rightarrow> mstate list" and ys h t
    using that by (induction ys) (auto simp: append_eq_Cons_conv)
  from m have "concat (map (matcher ic (Seq s (Grp g2 b))) (matcher ic (Grp g1 a) (i, rest, []))) =
      (j, rest', caps') # others" by (simp del: matcher.simps(6))
  from hd [OF this] obtain z1 t1 where z1: "z1 \<in> set (matcher ic (Grp g1 a) (i, rest, []))"
    "matcher ic (Seq s (Grp g2 b)) z1 = (j, rest', caps') # t1" by blast
  from z1(2) have "concat (map (matcher ic (Grp g2 b)) (matcher ic s z1)) = (j, rest', caps') # t1"
    by (simp del: matcher.simps(6))
  from hd [OF this] obtain z2 t2 where z2: "z2 \<in> set (matcher ic s z1)"
    "matcher ic (Grp g2 b) z2 = (j, rest', caps') # t2" by blast
  obtain j1 r1 c1 where z1': "z1 = (j1, r1, c1)" by (cases z1)
  obtain j2 r2 c2 where z2': "z2 = (j2, r2, c2)" by (cases z2)
  from matcher_Grp [OF assms(1) z1(1) [unfolded z1']] obtain u where
    u: "rest = u @ r1" "j1 = i + length u" "wm ic a i u r1" "c1 = [(g1, u)]" by auto
  from matcher_caps [OF assms(2) z2(1)] z1' z2' have c2: "c2 = c1" by simp
  from matcher_sound [OF z2(1)] z1' z2' obtain sp where
    sp: "r1 = sp @ r2" "j2 = j1 + length sp" "wm ic s j1 sp r2" unfolding steps_def by auto
  from z2(2) have "(j, rest', caps') \<in> set (matcher ic (Grp g2 b) (j2, r2, c2))"
    unfolding z2' by simp
  from matcher_Grp [OF assms(3) this] obtain v where
    v: "r2 = v @ rest'" "j = j2 + length v" "wm ic b j2 v rest'" "caps' = (g2, v) # c2" by auto
  from z2(2) [unfolded z2'] obtain y tl where
    "matcher ic b (j2, r2, c2) = y # tl" "fst y = j" "fst (snd y) = rest'"
    by (cases "matcher ic b (j2, r2, c2)") auto
  then have "matcher ic b (j2, r2, c2) = (j, rest', snd (snd y)) # tl"
    by (cases y) auto
  with u sp v c2 show ?thesis
    by (intro exI [of _ u] exI [of _ sp] exI [of _ v] exI [of _ "snd (snd y)"] exI [of _ tl])
      (auto simp del: matcher.simps)
qed

section \<open>The patterns of the source and the shapes\<close>

lemma cls_digit [simp]: "cls_match ic [CDigit] = is_digit"
  by (simp add: cls_match_def fun_eq_iff)

lemma cls_space [simp]: "cls_match ic [CSpace] = is_space"
  by (simp add: cls_match_def fun_eq_iff)

lemma cls_upper_digit [simp]: "cls_match True [CRange 65 90, CRange 48 57] = alnum"
  by (auto simp: cls_match_def fun_eq_iff alnum_def is_digit_def upper_def lower_def)

lemma cls_word [simp]: "cls_match False [CRange 65 90, CRange 97 122, CRange 48 57] = alnum"
  by (auto simp: cls_match_def fun_eq_iff alnum_def is_digit_def)

lemma cls_point_comma [simp]:
  "cls_match False [CChar 46, CChar 44] = (\<lambda>c. c = 46 \<or> c = 44)"
  by (auto simp: cls_match_def chr_match_def fun_eq_iff)

lemma wm_Chr_plain [simp]: "wm False (Chr p) i w after \<longleftrightarrow> lit [p] w"
  by (auto simp: wm_Chr_iff chr_match_def lit_def)

lemma wm_Chr_symbol [simp]: "p < 65 \<Longrightarrow> wm True (Chr p) i w after \<longleftrightarrow> lit [p] w"
  by (auto simp: wm_Chr_iff chr_match_def upper_def lower_def lit_def)

lemma chr_match_letter:
  "65 \<le> p \<Longrightarrow> p \<le> 90 \<Longrightarrow> chr_match True p c \<longleftrightarrow> upper c = p"
  unfolding chr_match_def upper_def lower_def
  by (cases "97 \<le> c \<and> c \<le> 122"; cases "65 \<le> c \<and> c \<le> 90") (simp_all, linarith+)

lemma wm_Chr_letter [simp]:
  "65 \<le> p \<Longrightarrow> p \<le> 90 \<Longrightarrow> wm True (Chr p) i w after \<longleftrightarrow> letter p w"
  by (simp add: wm_Chr_iff chr_match_letter letter_def)

lemma wm_Cls_one [simp]: "wm ic (Cls items) i w after \<longleftrightarrow> one_of (cls_match ic items) w"
  by (simp add: wm_Cls_iff one_of_def)

lemma wm_Rep_many [simp]:
  "a \<le> b \<Longrightarrow> wm ic (Rep a (Some b) (Cls items)) i w after \<longleftrightarrow> many a b (cls_match ic items) w"
  by (simp add: wm_Rep_Cls_iff within_def many_def)

lemma wm_Rep_at_least [simp]:
  "wm ic (Rep a None (Cls items)) i w after \<longleftrightarrow> at_least a (cls_match ic items) w"
  by (simp add: wm_Rep_Cls_iff within_def at_least_def)

lemma wm_Seq_cat:
  "(\<And>i w after. wm ic a i w after \<longleftrightarrow> A w) \<Longrightarrow> (\<And>i w after. wm ic b i w after \<longleftrightarrow> B w) \<Longrightarrow>
   wm ic (Seq a b) i w after \<longleftrightarrow> cat A B w"
  by (simp add: wm_Seq_iff cat_def)

lemma wm_opt:
  "(\<And>i w after. wm ic r i w after \<longleftrightarrow> A w) \<Longrightarrow>
   wm ic (Rep 0 (Some (Suc 0)) r) i w after \<longleftrightarrow> opt A w"
  by (auto simp: wm_opt_iff opt_def)

lemma wm_Alt_either:
  "(\<And>i w after. wm ic a i w after \<longleftrightarrow> A w) \<Longrightarrow> (\<And>i w after. wm ic b i w after \<longleftrightarrow> B w) \<Longrightarrow>
   wm ic (Alt a b) i w after \<longleftrightarrow> either A B w"
  by (simp add: wm_Alt_iff either_def)

lemma wm_digits [simp]: "a \<le> b \<Longrightarrow> wm ic (digits_re a b) i w after \<longleftrightarrow> digits a b w"
  by (simp add: digits_re_def digits_def)

lemma wm_spaces [simp]: "wm ic spaces i w after \<longleftrightarrow> is_spaces w"
  by (simp add: spaces_def is_spaces_def)

lemma wm_opt_space [simp]: "wm ic opt_space i w after \<longleftrightarrow> many 0 1 is_space w"
  by (simp add: opt_space_def)

lemma wm_am_pm [simp]: "wm True am_pm i w after \<longleftrightarrow> is_am_pm w"
  by (simp add: am_pm_def is_am_pm_def wm_Alt_either wm_Seq_cat)

lemma wm_date [simp]: "wm True date_re i w after \<longleftrightarrow> is_date w"
  by (simp add: date_re_def is_date_def wm_Seq_cat js_def)

lemma wm_time [simp]: "h \<le> 2 \<Longrightarrow> wm True (time_re h) i w after \<longleftrightarrow> is_time h w"
  by (simp add: time_re_def is_time_def wm_Seq_cat wm_opt js_def)

lemma wm_plus [simp]: "wm True simplePlusCodeRegex i w after \<longleftrightarrow> plus_token w"
  by (simp add: simplePlusCodeRegex_def upper_digit_def plus_token_def wm_Seq_cat js_def)

lemma one_of_point_comma: "one_of (\<lambda>c. c = 46 \<or> c = 44) = either (lit [46]) (lit [44])"
  by (auto simp: one_of_def either_def lit_def fun_eq_iff)

lemma wm_coord [simp]: "wm False allNumbersRegex i w after \<longleftrightarrow> coord_token w"
  by (simp add: allNumbersRegex_def coord_token_def wm_Seq_cat wm_opt digits_def js_def
      one_of_point_comma)

subsection \<open>The longest coordinate token\<close>

text \<open>A quantifier on a class lists its matches from the longest to the shortest.\<close>

lemma rep_pos:
  "(\<And>x y. y \<in> set (f x) \<Longrightarrow> fst x \<le> fst y) \<Longrightarrow> y \<in> set (rep f mn mx x) \<Longrightarrow> fst x \<le> fst y"
proof (induction f mn mx x arbitrary: y rule: rep.induct)
  case (1 f mn mx x)
  from "1.prems"(2) show ?case
  proof (cases rule: rep_cases)
    case 1
    then show ?thesis by simp
  next
    case (2 z)
    have "fst z \<le> fst y"
    proof (cases "mn = 0")
      case True
      with 2 "1.IH"(2) [of z y] "1.prems"(1) show ?thesis by simp
    next
      case False
      with 2 "1.IH"(1) [of z y] "1.prems"(1) show ?thesis by simp
    qed
    with "1.prems"(1) [OF 2(2)] show ?thesis by simp
  qed
qed

lemma matcher_pos: "y \<in> set (matcher ic r x) \<Longrightarrow> fst x \<le> fst y"
  using matcher_sound [of y ic r x] by (auto simp: steps_def)

lemma matcher_Cls_cases:
  "matcher ic (Cls items) (i, s, caps) = [] \<or>
   (\<exists>c cs. s = c # cs \<and> matcher ic (Cls items) (i, s, caps) = [(Suc i, cs, caps)])"
  by (cases s) auto

lemma rep_Cls_sorted:
  "sorted_wrt (\<lambda>a b. fst b < fst a) (rep (matcher ic (Cls items)) mn mx (i, s, caps))"
proof (induction s arbitrary: i mn mx)
  case Nil
  show ?case by (subst rep.simps) simp
next
  case (Cons c cs)
  from matcher_Cls_cases [of ic items i "c # cs" caps] show ?case
  proof
    assume "matcher ic (Cls items) (i, c # cs, caps) = []"
    then show ?thesis by (subst rep.simps) simp
  next
    assume "\<exists>c' cs'. c # cs = c' # cs' \<and>
      matcher ic (Cls items) (i, c # cs, caps) = [(Suc i, cs', caps)]"
    then have m: "matcher ic (Cls items) (i, c # cs, caps) = [(Suc i, cs, caps)]" by simp
    have pos: "i < fst y" if "y \<in> set (rep (matcher ic (Cls items)) mn' mx' (Suc i, cs, caps))"
      for y mn' mx'
      using rep_pos [of "matcher ic (Cls items)" y mn' mx' "(Suc i, cs, caps)"] that matcher_pos
      by fastforce
    have "sorted_wrt (\<lambda>a b. fst b < fst a)
        (rep (matcher ic (Cls items)) mn' mx' (Suc i, cs, caps) @ [(i, c # cs, caps)])" for mn' mx'
      using Cons.IH [of mn' mx' "Suc i"] pos [of _ mn' mx'] by (auto simp: sorted_wrt_append)
    then have a: "sorted_wrt (\<lambda>a b. fst b < fst a)
        (rep (matcher ic (Cls items)) 0 (dec mx) (Suc i, cs, caps) @ [(i, c # cs, caps)])" .
    show ?thesis
    proof (cases "mx = Some 0")
      case True
      then show ?thesis by (subst rep.simps) simp
    next
      case mx: False
      show ?thesis
      proof (cases "mn = 0")
        case True
        with mx m a show ?thesis by (subst rep.simps) (simp del: matcher.simps)
      next
        case False
        with mx m Cons.IH [of "mn - 1" "dec mx" "Suc i"] show ?thesis
          by (subst rep.simps) (simp del: matcher.simps)
      qed
    qed
  qed
qed

lemma sorted_distinct: "sorted_wrt (\<lambda>a b. fst b < fst a) (ys :: mstate list) \<Longrightarrow> distinct ys"
proof (induction ys)
  case Nil
  show ?case by simp
next
  case (Cons a ys)
  from Cons.prems have "\<forall>y \<in> set ys. fst y < fst a" by simp
  from Cons.prems have "distinct ys" by (intro Cons.IH) simp
  have "a \<notin> set ys"
  proof
    assume "a \<in> set ys"
    with \<open>\<forall>y \<in> set ys. fst y < fst a\<close> have "fst a < fst a" by (rule bspec)
    then show False by simp
  qed
  with \<open>distinct ys\<close> show ?case by simp
qed

lemma concat_map_single:
  "distinct ys \<Longrightarrow> (\<And>y. y \<in> set ys \<Longrightarrow> y \<noteq> y0 \<Longrightarrow> g y = []) \<Longrightarrow>
   concat (map g ys) = (if y0 \<in> set ys then g y0 else [])"
  by (induction ys) auto

lemma sorted_same_pos:
  "sorted_wrt (\<lambda>a b. fst b < fst a) (ys :: mstate list) \<Longrightarrow> a \<in> set ys \<Longrightarrow> b \<in> set ys \<Longrightarrow>
   fst a = fst b \<Longrightarrow> a = b"
  by (induction ys) auto

lemma sorted_head_max:
  "sorted_wrt (\<lambda>a b. fst b < fst a) (y # ys) \<Longrightarrow> z \<in> set (y # ys) \<Longrightarrow> fst z \<le> fst (y :: mstate)"
  by auto

lemma takeWhile_run: "list_all P w \<Longrightarrow> \<not> P c \<Longrightarrow> takeWhile P (w @ c # r) = w"
  by (induction w) auto

lemma run_end:
  assumes "w1 @ c1 # r1 = w2 @ c2 # r2" "list_all P w1" "list_all P w2" "\<not> P c1" "\<not> P c2"
  shows "w1 = w2"
proof -
  have "w1 = takeWhile P (w1 @ c1 # r1)" using assms(2,4) by (simp add: takeWhile_run)
  also have "\<dots> = takeWhile P (w2 @ c2 # r2)" by (simp add: assms(1))
  also have "\<dots> = w2" using assms(3,5) by (simp add: takeWhile_run)
  finally show ?thesis .
qed

lemma concat_map_concat_map:
  "concat (map h (concat (map g ys))) = concat (map (\<lambda>y. concat (map h (g y))) ys)"
  by (induction ys) auto

lemma matcher_Seq_fun:
  "matcher ic (Seq a b) = (\<lambda>y. concat (map (matcher ic b) (matcher ic a y)))"
  by (rule ext) simp

text \<open>
  After a run of digits, what cannot start with a digit and matches once at most at
  a place matches at one place at most.
\<close>

lemma digits_then_single:
  assumes ab: "a \<le> b" and one: "\<And>y. length (g y) \<le> 1"
    and nd: "\<And>y. g y \<noteq> [] \<Longrightarrow> \<exists>c r. fst (snd y) = c # r \<and> \<not> is_digit c"
  shows "length (concat (map g (matcher ic (Rep a (Some b) (Cls [CDigit])) x))) \<le> 1"
proof -
  define ys where "ys = matcher ic (Rep a (Some b) (Cls [CDigit])) x"
  obtain i s caps where x: "x = (i, s, caps)" by (cases x)
  have sorted: "desc ys"
    unfolding ys_def x by (simp add: rep_Cls_sorted)
  have run: "\<exists>w c r. s = w @ c # r \<and> list_all is_digit w \<and> \<not> is_digit c \<and> fst y = i + length w"
    if y: "y \<in> set ys" and gy: "g y \<noteq> []" for y
  proof -
    obtain j t caps' where y': "y = (j, t, caps')" by (cases y)
    from matcher_sound [OF y [unfolded ys_def]] ab obtain w where
      w: "s = w @ t" "j = i + length w" "list_all is_digit w"
      by (auto simp: steps_def x y' many_def)
    from nd [OF gy] obtain c r where "t = c # r" "\<not> is_digit c" by (auto simp: y')
    with w show ?thesis by (auto simp: y')
  qed
  have "length (concat (map g ys)) \<le> 1"
  proof (cases "\<forall>y \<in> set ys. g y = []")
    case True
    then have "length (concat (map g ys)) = 0" by (induction ys) auto
    then show ?thesis by linarith
  next
    case False
    then obtain y0 where y0: "y0 \<in> set ys" "g y0 \<noteq> []" by blast
    have "g y = []" if "y \<in> set ys" "y \<noteq> y0" for y
    proof (rule ccontr)
      assume "g y \<noteq> []"
      from run [OF that(1) this] run [OF y0] run_end [of _ _ _ _ _ _ is_digit]
      have "fst y = fst y0" by metis
      with sorted that(1) y0(1) have "y = y0" by (rule sorted_same_pos)
      with that(2) show False by simp
    qed
    with sorted_distinct [OF sorted] have "concat (map g ys) = (if y0 \<in> set ys then g y0 else [])"
      by (rule concat_map_single)
    with y0(1) one [of y0] show ?thesis by simp
  qed
  then show ?thesis unfolding ys_def .
qed

lemma single_Cls: "length (matcher ic (Cls items) y) \<le> 1"
  using matcher_Cls_cases [of ic items "fst y" "fst (snd y)" "snd (snd y)"] by auto

lemma digits_sep_single:
  assumes ab: "a \<le> b"
  shows "length (concat (map (matcher False (Cls [CChar 46, CChar 44]))
           (matcher False (Rep a (Some b) (Cls [CDigit])) x))) \<le> 1"
proof (rule digits_then_single [OF ab single_Cls])
  fix y :: mstate
  obtain j t caps' where y': "y = (j, t, caps')" by (cases y)
  assume "matcher False (Cls [CChar 46, CChar 44]) y \<noteq> []"
  then obtain c r where "t = c # r" "c = 46 \<or> c = 44"
    unfolding y' by (cases t) (auto split: if_splits)
  then show "\<exists>c r. fst (snd y) = c # r \<and> \<not> is_digit c" by (auto simp: is_digit_def y')
qed

text \<open>
  So the pattern of a coordinate lists its matches at an index from the longest to the
  shortest: the sign and the digits before the separator are determined by the text,
  only the digits behind it are a choice.
\<close>

lemma unsigned_sorted:
  "sorted_wrt (\<lambda>a b. fst b < fst a)
     (matcher False (Seq (Rep 1 (Some 3) (Cls [CDigit]))
        (Seq (Cls [CChar 46, CChar 44]) (Rep 3 (Some 12) (Cls [CDigit])))) x)"
proof -
  let ?zs = "concat (map (matcher False (Cls [CChar 46, CChar 44]))
    (matcher False (Rep 1 (Some 3) (Cls [CDigit])) x))"
  have m: "matcher False (Seq (Rep 1 (Some 3) (Cls [CDigit]))
        (Seq (Cls [CChar 46, CChar 44]) (Rep 3 (Some 12) (Cls [CDigit])))) x =
      concat (map (matcher False (Rep 3 (Some 12) (Cls [CDigit]))) ?zs)"
    by (subst matcher.simps(3)) (simp only: matcher_Seq_fun concat_map_concat_map)
  have "length ?zs \<le> 1" by (rule digits_sep_single) simp
  then consider "?zs = []" | z where "?zs = [z]" by (cases ?zs) auto
  then show ?thesis
  proof cases
    case 1
    show ?thesis unfolding m 1 by simp
  next
    case 2
    obtain j t caps where "z = (j, t, caps)" by (cases z)
    then show ?thesis unfolding m 2 by (simp add: rep_Cls_sorted)
  qed
qed

lemma unsigned_minus:
  "matcher False (Seq (Rep 1 (Some 3) (Cls [CDigit])) r) (i, 45 # cs, caps) = []"
  by (simp, subst rep.simps) (simp add: cls_match_def is_digit_def)

lemma coord_sorted: "sorted_wrt (\<lambda>a b. fst b < fst a) (matcher False allNumbersRegex x)"
proof -
  let ?R = "Seq (Rep 1 (Some 3) (Cls [CDigit]))
        (Seq (Cls [CChar 46, CChar 44]) (Rep 3 (Some 12) (Cls [CDigit])))"
  obtain i s caps where x: "x = (i, s, caps)" by (cases x)
  have "matcher False (Rep 0 (Some 1) (Chr 45)) x = [x] \<or>
    (\<exists>cs. s = 45 # cs \<and> matcher False (Rep 0 (Some 1) (Chr 45)) x = [(Suc i, cs, caps), x])"
  proof (cases "matcher False (Chr 45) x")
    case Nil
    then show ?thesis by (simp, subst rep.simps) simp
  next
    case (Cons y ys)
    then have s: "\<exists>cs. s = 45 # cs \<and> matcher False (Chr 45) x = [(Suc i, cs, caps)]"
      unfolding x by (cases s) (auto simp: chr_match_def split: if_splits)
    then obtain cs where cs: "s = 45 # cs" "matcher False (Chr 45) x = [(Suc i, cs, caps)]"
      by blast
    have "rep (matcher False (Chr 45)) 0 (Some 0) (Suc i, cs, caps) = [(Suc i, cs, caps)]"
      by (subst rep.simps) simp
    with cs have "matcher False (Rep 0 (Some 1) (Chr 45)) x = [(Suc i, cs, caps), x]"
      by (simp del: matcher.simps(1), subst rep.simps) (simp add: x del: matcher.simps(1))
    with cs(1) show ?thesis by blast
  qed
  note sign = this
  have seq: "matcher False allNumbersRegex x =
      concat (map (matcher False ?R) (matcher False (Rep 0 (Some 1) (Chr 45)) x))"
    unfolding allNumbersRegex_def by (subst matcher.simps(3)) simp
  from sign have "\<exists>x'. matcher False allNumbersRegex x = matcher False ?R x'"
  proof
    assume "matcher False (Rep 0 (Some 1) (Chr 45)) x = [x]"
    then have "matcher False allNumbersRegex x = matcher False ?R x"
      unfolding seq by (simp only: list.map concat.simps append_Nil2)
    then show ?thesis ..
  next
    assume "\<exists>cs. s = 45 # cs \<and>
      matcher False (Rep 0 (Some 1) (Chr 45)) x = [(Suc i, cs, caps), x]"
    then obtain cs where cs: "s = 45 # cs"
      "matcher False (Rep 0 (Some 1) (Chr 45)) x = [(Suc i, cs, caps), x]" by blast
    have "matcher False ?R x = []" unfolding x cs(1) by (rule unsigned_minus)
    then have "matcher False allNumbersRegex x = matcher False ?R (Suc i, cs, caps)"
      unfolding seq cs(2) by (simp only: list.map concat.simps append_Nil2)
    then show ?thesis ..
  qed
  with unsigned_sorted show ?thesis by metis
qed

lemma coord_longest:
  assumes m: "matcher False allNumbersRegex (i, t, caps) = (j, rest', caps') # ys"
    and w: "coord_token w" "t = w @ q"
  shows "i + length w \<le> j"
proof -
  from w(1) have "wm False allNumbersRegex i w q" by simp
  from matcher_complete [OF this, of caps] w(2) m obtain c where
    "(i + length w, q, c) \<in> set ((j, rest', caps') # ys)" by auto
  with coord_sorted [of "(i, t, caps)"] m sorted_head_max [of "(j, rest', caps')" ys]
  show ?thesis by fastforce
qed

subsection \<open>The longest date and the longest time\<close>

text \<open>
  The patterns of a date and of a time list their matches at an index from the longest
  to the shortest: up to the last run of digits (and the optional seconds, space and
  marker) the text decides how much each part takes.
\<close>

lemma hd_concat_map:
  "concat (map g ys) = h # t \<Longrightarrow> \<exists>y \<in> set ys. \<exists>t'. g y = h # t'"
  by (induction ys) (auto simp: append_eq_Cons_conv)

lemma desc_single: "length ys \<le> 1 \<Longrightarrow> desc (ys :: mstate list)"
  by (cases ys) auto

lemma desc_same_pos:
  assumes "desc (ys :: mstate list)" and "\<And>y. y \<in> set ys \<Longrightarrow> fst y = k"
  shows "length ys \<le> 1"
proof (cases ys)
  case Nil
  then show ?thesis by simp
next
  case (Cons a zs)
  show ?thesis
  proof (cases zs)
    case Nil
    with Cons show ?thesis by simp
  next
    case (Cons b zs')
    with \<open>ys = a # zs\<close> assms(1) have "fst b < fst a" by simp
    moreover from Cons \<open>ys = a # zs\<close> assms(2) [of a] assms(2) [of b] have "fst a = fst b" by simp
    ultimately show ?thesis by simp
  qed
qed

lemma desc_append_one:
  "desc ys \<Longrightarrow> (\<And>y. y \<in> set ys \<Longrightarrow> fst x < fst y) \<Longrightarrow> desc (ys @ [x])"
  by (simp add: sorted_wrt_append)

lemma single_Chr: "length (matcher ic (Chr p) y) \<le> 1"
  by (cases y; cases "fst (snd y)") auto

lemma Chr_head:
  "matcher ic (Chr p) y \<noteq> [] \<Longrightarrow> \<exists>c r. fst (snd y) = c # r \<and> chr_match ic p c"
  by (cases y; cases "fst (snd y)") (auto split: if_splits)

lemma single_Seq:
  assumes "\<And>y. length (matcher ic a y) \<le> 1" and "\<And>y. length (matcher ic b y) \<le> 1"
  shows "length (matcher ic (Seq a b) x) \<le> 1"
proof (cases "matcher ic a x")
  case Nil
  then show ?thesis by simp
next
  case (Cons y ys)
  with assms(1) [of x] have "ys = []" by simp
  with Cons assms(2) [of y] show ?thesis by simp
qed

lemma single_then_desc:
  assumes "\<And>y. length (matcher ic a y) \<le> 1" and "\<And>y. desc (matcher ic b y)"
  shows "desc (matcher ic (Seq a b) x)"
proof (cases "matcher ic a x")
  case Nil
  then show ?thesis by simp
next
  case (Cons y ys)
  with assms(1) [of x] have "ys = []" by simp
  with Cons assms(2) [of y] show ?thesis by simp
qed

lemma matcher_Seq_assoc: "matcher ic (Seq a (Seq b c)) = matcher ic (Seq (Seq a b) c)"
  by (rule ext) (simp add: matcher_Seq_fun concat_map_concat_map)

lemma matcher_Seq_cong:
  "matcher ic b = matcher ic b' \<Longrightarrow> matcher ic (Seq a b) = matcher ic (Seq a b')"
  by (rule ext) simp

lemma single_digits_Chr:
  assumes "a \<le> b" and "\<And>c. chr_match ic p c \<Longrightarrow> \<not> is_digit c"
  shows "length (matcher ic (Seq (digits_re a b) (Chr p)) x) \<le> 1"
  unfolding matcher.simps(3) digits_re_def
proof (rule digits_then_single [OF assms(1) single_Chr])
  fix y :: mstate
  assume "matcher ic (Chr p) y \<noteq> []"
  from Chr_head [OF this] assms(2)
  show "\<exists>c r. fst (snd y) = c # r \<and> \<not> is_digit c" by blast
qed

lemma symbol_no_digit: "p = 47 \<or> p = 58 \<Longrightarrow> chr_match True p c \<Longrightarrow> \<not> is_digit c"
  by (auto simp: chr_match_def upper_def lower_def is_digit_def split: if_splits)

lemma single_digits_exact: "length (matcher ic (digits_re n n) x) \<le> 1"
proof (rule desc_same_pos [where k = "fst x + n"])
  show "desc (matcher ic (digits_re n n) x)"
    by (cases x) (simp add: digits_re_def rep_Cls_sorted)
  fix y
  assume "y \<in> set (matcher ic (digits_re n n) x)"
  from matcher_sound [OF this] show "fst y = fst x + n"
    by (auto simp: steps_def digits_def many_def)
qed

text \<open>An optional part: what it matches, then nothing.\<close>

lemma rep_Some0: "rep f mn (Some 0) y = [y]"
  by (subst rep.simps) simp

lemma opt_list:
  "matcher ic (Rep 0 (Some 1) r) x =
     filter (\<lambda>y. length (fst (snd y)) < length (fst (snd x))) (matcher ic r x) @ [x]"
proof -
  have "concat (map (\<lambda>y. if P y then [y] else []) zs) = filter P zs" for P and zs :: "mstate list"
    by (induction zs) auto
  then show ?thesis by (simp, subst rep.simps) (simp add: rep_Some0 cong: if_cong)
qed

lemma opt_desc:
  assumes "desc (matcher ic r x)"
  shows "desc (matcher ic (Rep 0 (Some 1) r) x)"
  unfolding opt_list
proof (rule desc_append_one)
  show "desc (filter (\<lambda>y. length (fst (snd y)) < length (fst (snd x))) (matcher ic r x))"
    using assms by (rule sorted_wrt_filter)
  fix y
  assume "y \<in> set (filter (\<lambda>y. length (fst (snd y)) < length (fst (snd x))) (matcher ic r x))"
  then have y: "y \<in> set (matcher ic r x)" "length (fst (snd y)) < length (fst (snd x))" by simp_all
  from matcher_sound [OF y(1)] y(2) show "fst x < fst y" by (auto simp: steps_def)
qed

lemma opt_none: "matcher ic r x = [] \<Longrightarrow> matcher ic (Rep 0 (Some 1) r) x = [x]"
  by (simp only: opt_list) simp

text \<open>A date: day and month end at their \<open>/\<close>; the year takes what it can.\<close>

lemma date_desc: "desc (matcher True date_re x)"
proof -
  let ?ds = "Seq (digits_re 1 2) (Chr (of_char CHR ''/''))"
  have ds: "length (matcher True ?ds y) \<le> 1" for y
    by (rule single_digits_Chr) (auto dest: symbol_no_digit [rotated])
  have d: "desc (matcher True (digits_re 2 4) y)" for y
    by (cases y) (simp add: digits_re_def rep_Cls_sorted)
  have e: "matcher True (Seq (digits_re 1 2) (Seq (Chr (of_char CHR ''/'')) (digits_re 2 4))) =
      matcher True (Seq ?ds (digits_re 2 4))"
    by (rule matcher_Seq_assoc)
  have "matcher True date_re =
      matcher True (Seq ?ds (Seq (digits_re 1 2) (Seq (Chr (of_char CHR ''/'')) (digits_re 2 4))))"
    unfolding date_re_def by (rule matcher_Seq_assoc)
  also have "\<dots> = matcher True (Seq ?ds (Seq ?ds (digits_re 2 4)))"
    using e by (rule matcher_Seq_cong)
  finally have "matcher True date_re x = matcher True (Seq ?ds (Seq ?ds (digits_re 2 4))) x"
    by simp
  moreover have "desc (matcher True (Seq ?ds (Seq ?ds (digits_re 2 4))) x)"
    by (intro single_then_desc ds d)
  ultimately show ?thesis by simp
qed

text \<open>
  A time: hour and minutes are fixed by the text; then the seconds or nothing. With
  the seconds in the text, the time without them ends at their \<open>:\<close>.
\<close>

lemma time_list:
  assumes "h \<le> 2"
  shows "matcher True (time_re h) x = [] \<or>
    (\<exists>z. matcher True (time_re h) x =
       matcher True (Rep 0 (Some 1) (Seq (Chr (of_char CHR '':'')) (digits_re 2 2))) z)"
proof -
  let ?co = "Chr (of_char CHR '':'')"
  let ?os = "Rep 0 (Some 1) (Seq ?co (digits_re 2 2))"
  let ?p = "Seq (Seq (digits_re h 2) ?co) (digits_re 2 2)"
  have hc: "length (matcher True (Seq (digits_re h 2) ?co) y) \<le> 1" for y
    by (rule single_digits_Chr) (auto simp: assms dest: symbol_no_digit [rotated])
  have p: "length (matcher True ?p y) \<le> 1" for y
    by (intro single_Seq hc single_digits_exact)
  have "matcher True (time_re h) = matcher True (Seq (Seq (digits_re h 2) ?co) (Seq (digits_re 2 2) ?os))"
    unfolding time_re_def by (rule matcher_Seq_assoc)
  also have "\<dots> = matcher True (Seq ?p ?os)"
    by (rule matcher_Seq_assoc)
  finally have t: "matcher True (time_re h) x = concat (map (matcher True ?os) (matcher True ?p x))"
    by (simp del: matcher.simps add: matcher.simps(3))
  show ?thesis
  proof (cases "matcher True ?p x")
    case Nil
    with t show ?thesis by simp
  next
    case (Cons z zs)
    with p [of x] have "zs = []" by simp
    with Cons t have "matcher True (time_re h) x = matcher True ?os z" by simp
    then show ?thesis by blast
  qed
qed

lemma seconds_list:
  "matcher True (Rep 0 (Some 1) (Seq (Chr (of_char CHR '':'')) (digits_re 2 2))) z = [z] \<or>
   (\<exists>y cs. matcher True (Rep 0 (Some 1) (Seq (Chr (of_char CHR '':'')) (digits_re 2 2))) z = [y, z] \<and>
      fst z < fst y \<and> fst (snd z) = 58 # cs)"
proof -
  let ?sec = "Seq (Chr (of_char CHR '':'')) (digits_re 2 2)"
  have one: "length (matcher True ?sec z) \<le> 1"
    by (intro single_Seq single_Chr single_digits_exact)
  show ?thesis
  proof (cases "matcher True ?sec z")
    case Nil
    then show ?thesis by (simp only: opt_none) simp
  next
    case (Cons y ys)
    with one have m: "matcher True ?sec z = [y]" by simp
    then have "y \<in> set (matcher True ?sec z)" by simp
    from matcher_sound [OF this] have y: "fst z < fst y" "length (fst (snd y)) < length (fst (snd z))"
      by (auto simp: steps_def wm_Seq_iff wm_Chr_iff)
    have "matcher True (Chr (of_char CHR '':'')) z \<noteq> []"
      using m by (auto simp del: matcher.simps(1,2,5))
    from Chr_head [OF this] obtain c cs where "fst (snd z) = c # cs" "chr_match True 58 c"
      by auto
    then have "fst (snd z) = 58 # cs"
      by (auto simp: chr_match_def upper_def lower_def split: if_splits)
    with m y show ?thesis by (simp only: opt_list) simp
  qed
qed

lemma time_desc: "h \<le> 2 \<Longrightarrow> desc (matcher True (time_re h) x)"
proof -
  assume "h \<le> 2"
  from time_list [OF this, of x] show ?thesis
  proof
    assume "matcher True (time_re h) x = []"
    then show ?thesis by simp
  next
    assume "\<exists>z. matcher True (time_re h) x =
      matcher True (Rep 0 (Some 1) (Seq (Chr (of_char CHR '':'')) (digits_re 2 2))) z"
    then obtain z where z: "matcher True (time_re h) x =
      matcher True (Rep 0 (Some 1) (Seq (Chr (of_char CHR '':'')) (digits_re 2 2))) z" by blast
    from seconds_list [of z] show ?thesis unfolding z by auto
  qed
qed

text \<open>
  A time with an optional space and an optional marker: with a space in the text, the
  marker can only follow the space; behind a time that stopped before its seconds
  neither space nor marker follows.
\<close>

lemma am_pm_head:
  "matcher True am_pm x \<noteq> [] \<Longrightarrow> \<exists>c r. fst (snd x) = c # r \<and> (upper c = 65 \<or> upper c = 80)"
  by (cases x; cases "fst (snd x)")
    (auto simp: am_pm_def chr_match_def upper_def lower_def split: if_splits)

lemma single_am_pm: "length (matcher True am_pm x) \<le> 1"
proof -
  let ?a = "Seq (Chr (of_char CHR ''A'')) (Chr (of_char CHR ''M''))"
  let ?p = "Seq (Chr (of_char CHR ''P'')) (Chr (of_char CHR ''M''))"
  define la where "la = matcher True ?a x"
  define lp where "lp = matcher True ?p x"
  have a: "length la \<le> 1" and p: "length lp \<le> 1"
    unfolding la_def lp_def by (intro single_Seq single_Chr)+
  have "la = [] \<or> lp = []"
    unfolding la_def lp_def
    by (cases x; cases "fst (snd x)")
      (auto simp: chr_match_def upper_def lower_def split: if_splits)
  with a p have "length (la @ lp) \<le> 1" by auto
  moreover have "matcher True am_pm x = la @ lp"
    unfolding la_def lp_def am_pm_def by (rule matcher.simps(4))
  ultimately show ?thesis by simp
qed

lemma opt_marker_desc: "desc (matcher True (Rep 0 (Some 1) am_pm) z)"
  by (intro opt_desc desc_single single_am_pm)

lemma space_list:
  "matcher True opt_space z = [z] \<or>
   (\<exists>c cs. fst (snd z) = c # cs \<and> is_space c \<and>
      matcher True opt_space z = [(Suc (fst z), cs, snd (snd z)), z])"
proof -
  obtain i s caps where z: "z = (i, s, caps)" by (cases z)
  show ?thesis
    unfolding opt_space_def opt_list z by (cases s) auto
qed

lemma space_marker_desc: "desc (matcher True (Seq opt_space (Rep 0 (Some 1) am_pm)) z)"
proof -
  let ?oa = "Rep 0 (Some 1) am_pm"
  from space_list [of z] show ?thesis
  proof
    assume "matcher True opt_space z = [z]"
    then have "matcher True (Seq opt_space ?oa) z = matcher True ?oa z"
      by (simp del: matcher.simps(5))
    then show ?thesis by (simp only: opt_marker_desc)
  next
    assume "\<exists>c cs. fst (snd z) = c # cs \<and> is_space c \<and>
      matcher True opt_space z = [(Suc (fst z), cs, snd (snd z)), z]"
    then obtain c cs where c: "fst (snd z) = c # cs" "is_space c"
      "matcher True opt_space z = [(Suc (fst z), cs, snd (snd z)), z]" by blast
    let ?z' = "(Suc (fst z), cs, snd (snd z))"
    have "matcher True am_pm z = []"
    proof (rule ccontr)
      assume "matcher True am_pm z \<noteq> []"
      from am_pm_head [OF this] c(1) have "upper c = 65 \<or> upper c = 80" by simp
      with c(2) show False by (auto simp: upper_def is_space_def split: if_splits)
    qed
    then have "matcher True ?oa z = [z]" by (rule opt_none)
    with c(3) have m: "matcher True (Seq opt_space ?oa) z = matcher True ?oa ?z' @ [z]"
      by (simp del: matcher.simps(5))
    have "fst z < fst y" if "y \<in> set (matcher True ?oa ?z')" for y
      using matcher_pos [OF that] by simp
    with opt_marker_desc [of ?z'] show ?thesis
      unfolding m by (intro desc_append_one)
  qed
qed

lemma space_marker_colon:
  assumes "fst (snd z) = 58 # cs"
  shows "matcher True (Seq opt_space (Rep 0 (Some 1) am_pm)) z = [z]"
proof -
  obtain i s caps where z: "z = (i, s, caps)" by (cases z)
  with assms have s: "s = 58 # cs" by simp
  have sp: "matcher True opt_space z = [z]"
    unfolding opt_space_def z s by (simp only: opt_list) (simp add: is_space_def)
  have "matcher True am_pm z = []"
  proof (rule ccontr)
    assume "matcher True am_pm z \<noteq> []"
    from am_pm_head [OF this] assms show False by (simp add: upper_def)
  qed
  then have "matcher True (Rep 0 (Some 1) am_pm) z = [z]" by (rule opt_none)
  with sp show ?thesis by (simp del: matcher.simps(5))
qed

lemma time_opt_marker_desc:
  "desc (matcher True (Seq (time_re 1) (Seq opt_space (Rep 0 (Some 1) am_pm))) x)"
proof -
  let ?o = "Seq opt_space (Rep 0 (Some 1) am_pm)"
  let ?os = "Rep 0 (Some 1) (Seq (Chr (of_char CHR '':'')) (digits_re 2 2))"
  have m: "matcher True (Seq (time_re 1) ?o) x = concat (map (matcher True ?o) (matcher True (time_re 1) x))"
    by (rule matcher.simps(3))
  from time_list [of 1 x] show ?thesis
  proof
    assume "matcher True (time_re 1) x = []"
    then show ?thesis unfolding m by simp
  next
    assume "\<exists>z. matcher True (time_re 1) x = matcher True ?os z"
    then obtain z where z: "matcher True (time_re 1) x = matcher True ?os z" by blast
    from seconds_list [of z] show ?thesis
    proof
      assume "matcher True ?os z = [z]"
      then show ?thesis unfolding m z using space_marker_desc [of z]
        by (simp del: matcher.simps)
    next
      assume "\<exists>y cs. matcher True ?os z = [y, z] \<and> fst z < fst y \<and> fst (snd z) = 58 # cs"
      then obtain y cs where y: "matcher True ?os z = [y, z]" "fst z < fst y"
        "fst (snd z) = 58 # cs" by blast
      have "fst z < fst w" if "w \<in> set (matcher True ?o y)" for w
        using matcher_pos [OF that] y(2) by simp
      with space_marker_desc [of y] have "desc (matcher True ?o y @ [z])"
        by (intro desc_append_one)
      then show ?thesis unfolding m z y(1) using space_marker_colon [OF y(3)]
        by (simp del: matcher.simps)
    qed
  qed simp
qed

subsection \<open>Where the first text of a timestamp ends\<close>

text \<open>
  A date and a time hold no white space, and a time with a marker holds it only
  between the two: before the white space that separates the two texts of a timestamp,
  the first text can end at one place only.
\<close>

lemma many_digit_head:
  assumes "1 \<le> a" and "cat (digits a b) B u"
  shows "\<exists>d u'. u = d # u' \<and> is_digit d"
proof -
  from assms(2) obtain x y where "u = x @ y" "a \<le> length x" "list_all is_digit x"
    unfolding cat_def digits_def many_def by blast
  with assms(1) show ?thesis by (cases x) auto
qed

lemma cat_head:
  assumes "cat A B u" and "\<And>x. A x \<Longrightarrow> \<exists>d x'. x = d # x' \<and> is_digit d"
  shows "\<exists>d u'. u = d # u' \<and> is_digit d"
proof -
  from assms(1) obtain x y where "u = x @ y" "A x" unfolding cat_def by blast
  with assms(2) [of x] show ?thesis by auto
qed

lemma time_head: "1 \<le> h \<Longrightarrow> is_time h u \<Longrightarrow> \<exists>d u'. u = d # u' \<and> is_digit d"
  unfolding is_time_def using many_digit_head [of h 2 _ u] by blast

lemma date_head: "is_date u \<Longrightarrow> \<exists>d u'. u = d # u' \<and> is_digit d"
  unfolding is_date_def using many_digit_head [of 1 2 _ u] by blast

lemma digit_not_space: "is_digit c \<Longrightarrow> \<not> is_space c"
  by (auto simp: is_digit_def is_space_def)

lemma date_chars: "is_date u \<Longrightarrow> c \<in> set u \<Longrightarrow> is_digit c \<or> c = 47"
  by (auto simp: is_date_def cat_def digits_def many_def lit_def js_def list_all_iff)

lemma time_chars: "is_time h u \<Longrightarrow> c \<in> set u \<Longrightarrow> is_digit c \<or> c = 58"
  by (auto simp: is_time_def cat_def digits_def many_def lit_def opt_def js_def list_all_iff)

lemma symbol_not_space: "is_digit c \<or> c = 47 \<or> c = 58 \<Longrightarrow> \<not> is_space c"
  by (auto simp: is_digit_def is_space_def)

lemma date_no_space: "is_date u \<Longrightarrow> list_all (\<lambda>c. \<not> is_space c) u"
  unfolding list_all_iff using date_chars [of u] symbol_not_space by blast

lemma time_no_space: "is_time h u \<Longrightarrow> list_all (\<lambda>c. \<not> is_space c) u"
  unfolding list_all_iff using time_chars [of h u] symbol_not_space by blast

lemma date_end:
  "is_date u \<Longrightarrow> is_date u' \<Longrightarrow> u @ c # r = u' @ c' # r' \<Longrightarrow> is_space c \<Longrightarrow> is_space c' \<Longrightarrow>
   u = u'"
  using run_end [of u c r u' c' r' "\<lambda>c. \<not> is_space c"] by (simp add: date_no_space)

lemma time_end:
  "is_time h u \<Longrightarrow> is_time h u' \<Longrightarrow> u @ c # r = u' @ c' # r' \<Longrightarrow> is_space c \<Longrightarrow>
   is_space c' \<Longrightarrow> u = u'"
  using run_end [of u c r u' c' r' "\<lambda>c. \<not> is_space c"] by (simp add: time_no_space)

lemma time_last:
  assumes "is_time h u"
  shows "u \<noteq> [] \<and> is_digit (last u)"
proof -
  from assms obtain hh mm ss where u: "u = hh @ js '':'' @ mm @ ss" "digits 2 2 mm"
    "ss = [] \<or> (\<exists>d. ss = js '':'' @ d \<and> digits 2 2 d)"
    unfolding is_time_def cat_def lit_def opt_def by blast
  have l: "d \<noteq> [] \<and> is_digit (last d)" if "digits 2 2 d" for d
  proof -
    from that have "d \<noteq> []" "list_all is_digit d" by (auto simp: digits_def many_def)
    then show ?thesis by (simp add: list_all_iff)
  qed
  from u(3) show ?thesis
  proof
    assume "ss = []"
    with u(1) l [OF u(2)] show ?thesis by simp
  next
    assume "\<exists>d. ss = js '':'' @ d \<and> digits 2 2 d"
    then obtain d where "ss = js '':'' @ d" "digits 2 2 d" by blast
    with u(1) l [of d] show ?thesis by simp
  qed
qed

lemma marker_chars:
  assumes "is_am_pm m"
  shows "length m = 2 \<and> \<not> is_digit (last m) \<and> list_all (\<lambda>c. \<not> is_space c) m"
proof -
  from assms obtain a b where m: "m = [a, b]" "upper a = 65 \<or> upper a = 80" "upper b = 77"
    unfolding is_am_pm_def either_def cat_def letter_def by auto
  from m(2) have "\<not> is_space a" by (auto simp: upper_def is_space_def split: if_splits)
  moreover from m(3) have "\<not> is_space b" "\<not> is_digit b"
    by (auto simp: upper_def is_space_def is_digit_def split: if_splits)
  ultimately show ?thesis using m(1) by simp
qed

lemma time_marker_end:
  assumes "time_marker u" and "time_marker u'" and eq: "u @ c # r = u' @ c' # r'"
    and c: "is_space c" "is_space c'"
  shows "u = u'"
proof -
  let ?N = "\<lambda>c. \<not> is_space c"
  from assms(1) obtain tm s1 mk where u: "u = tm @ s1 @ mk" "is_time 1 tm"
    "many 0 1 is_space s1" "is_am_pm mk"
    unfolding time_marker_def cat_def by blast
  from assms(2) obtain tm' s1' mk' where u': "u' = tm' @ s1' @ mk'" "is_time 1 tm'"
    "many 0 1 is_space s1'" "is_am_pm mk'"
    unfolding time_marker_def cat_def by blast
  note tm = time_no_space [OF u(2)] time_no_space [OF u'(2)]
  note mk = marker_chars [OF u(4)] marker_chars [OF u'(4)]
  have s1: "s1 = [] \<or> (\<exists>x. s1 = [x] \<and> is_space x)"
    using u(3) by (cases s1) (auto simp: many_def)
  have s1': "s1' = [] \<or> (\<exists>x. s1' = [x] \<and> is_space x)"
    using u'(3) by (cases s1') (auto simp: many_def)
  have clash: False
    if "list_all ?N (t1 @ m1)" "is_am_pm m1" "is_time 1 t2" "is_space x"
      "(t1 @ m1) @ c1 # r1 = t2 @ x # r2" "is_space c1" for t1 m1 t2 x c1 r1 r2
  proof -
    from that(1,3,4,5,6) time_no_space [of 1 t2] have "t1 @ m1 = t2"
      by (intro run_end [of "t1 @ m1" c1 r1 t2 x r2 ?N]) simp_all
    with time_last [OF that(3)] marker_chars [OF that(2)] show False
      by (cases m1) auto
  qed
  from s1 s1' show ?thesis
  proof (elim disjE exE conjE)
    assume "s1 = []" "s1' = []"
    with u(1) u'(1) tm mk eq c show ?thesis
      by (intro run_end [of u c r u' c' r' ?N]) simp_all
  next
    fix x assume "s1 = []" "s1' = [x]" "is_space x"
    with clash [of tm mk tm' x c r "mk' @ c' # r'"] u u' tm mk eq c show ?thesis by simp
  next
    fix x assume "s1 = [x]" "is_space x" "s1' = []"
    with clash [of tm' mk' tm x c' r' "mk @ c # r"] u u' tm mk eq c show ?thesis by simp
  next
    fix x x' assume x: "s1 = [x]" "is_space x" "s1' = [x']" "is_space x'"
    with u(1) u'(1) eq have e: "tm @ x # (mk @ c # r) = tm' @ x' # (mk' @ c' # r')" by simp
    from e tm x(2,4) have t: "tm = tm'"
      by (intro run_end [of tm x "mk @ c # r" tm' x' "mk' @ c' # r'" ?N]) simp_all
    with e have "mk @ c # r = mk' @ c' # r'" by simp
    with mk have "mk = mk'" by simp
    with t x e u(1) u'(1) show ?thesis by simp
  qed
qed

text \<open>
  Hence the first text and the white space of a timestamp are fixed by the place
  where it starts.
\<close>

lemma parts_end:
  assumes A: "\<And>u u' c r c' r'. A u \<Longrightarrow> A u' \<Longrightarrow> u @ c # r = u' @ c' # r' \<Longrightarrow> is_space c \<Longrightarrow>
      is_space c' \<Longrightarrow> u = u'"
    and B: "\<And>v. B v \<Longrightarrow> \<exists>d v'. v = d # v' \<and> is_digit d"
    and p: "ts_parts (A, B) u sp v" "ts_parts (A, B) u' sp' v'"
    and eq: "u @ sp @ v @ q = u' @ sp' @ v' @ q'"
  shows "u = u' \<and> sp = sp'"
proof -
  from p have sp: "sp \<noteq> []" "list_all is_space sp" "sp' \<noteq> []" "list_all is_space sp'"
    by (auto simp: ts_parts_def is_spaces_def at_least_def)
  then obtain c cs c' cs' where c: "sp = c # cs" "is_space c" "sp' = c' # cs'" "is_space c'"
    by (cases sp; cases sp') auto
  from p have "A u" "A u'" by (simp_all add: ts_parts_def)
  moreover from eq c have "u @ c # (cs @ v @ q) = u' @ c' # (cs' @ v' @ q')" by simp
  ultimately have u: "u = u'" using c(2,4) by (rule A)
  from p B obtain d v0 d' v0' where v: "v = d # v0" "is_digit d" "v' = d' # v0'" "is_digit d'"
    unfolding ts_parts_def by (metis snd_conv)
  from eq u v have "sp @ d # (v0 @ q) = sp' @ d' # (v0' @ q')" by simp
  with sp(2,4) v(2,4) have "sp = sp'"
    by (intro run_end [of sp d "v0 @ q" sp' d' "v0' @ q'" is_space]) (simp_all add: digit_not_space)
  with u show ?thesis by simp
qed

subsection \<open>The timestamp patterns\<close>

lemma starts_two_groups:
  assumes "\<And>i w after. wm True a i w after \<longleftrightarrow> A w"
    and "\<And>i w after. wm True b i w after \<longleftrightarrow> B w"
  shows "starts True (Seq (Grp g1 a) (Seq spaces (Grp g2 b))) i s \<longleftrightarrow>
    (\<exists>u sp v q. s = u @ sp @ v @ q \<and> ts_parts (A, B) u sp v)"
  unfolding starts_def wm_Seq_iff wm_Grp_iff assms wm_spaces ts_parts_def fst_conv snd_conv
  by (metis append.assoc)

lemma occurs_at_drop:
  "occurs_at sh t n \<longleftrightarrow> n \<le> length t \<and> (\<exists>u sp v q. drop n t = u @ sp @ v @ q \<and> ts_parts sh u sp v)"
proof
  assume "occurs_at sh t n"
  then obtain p u sp v q where "t = p @ u @ sp @ v @ q" "length p = n" "ts_parts sh u sp v"
    unfolding occurs_at_def by blast
  then show "n \<le> length t \<and> (\<exists>u sp v q. drop n t = u @ sp @ v @ q \<and> ts_parts sh u sp v)"
    by auto
next
  assume r: "n \<le> length t \<and> (\<exists>u sp v q. drop n t = u @ sp @ v @ q \<and> ts_parts sh u sp v)"
  then obtain u sp v q where "drop n t = u @ sp @ v @ q" "ts_parts sh u sp v" by blast
  with r have "t = take n t @ u @ sp @ v @ q \<and> length (take n t) = n \<and> ts_parts sh u sp v"
    by (metis append_take_drop_id length_take min.absorb2)
  then show "occurs_at sh t n" unfolding occurs_at_def by blast
qed

lemma occurs_at_le: "occurs_at sh t n \<Longrightarrow> n \<le> length t"
  by (simp add: occurs_at_drop)

text \<open>
  A pattern of two groups: \<open>exec\<close> finds nothing exactly when the shape occurs nowhere,
  and otherwise reports the first place where it occurs and the longest text of the
  shape there, the groups holding its two texts. The second group lists its longest
  match first, and before it the text leaves no choice.
\<close>

lemma exec_two_groups:
  assumes a: "\<And>i w after. wm True a i w after \<longleftrightarrow> A w"
    and b: "\<And>i w after. wm True b i w after \<longleftrightarrow> B w"
    and n: "no_grp a" "no_grp b" and g: "g1 \<noteq> g2"
    and d: "\<And>x. desc (matcher True b x)"
    and e: "\<forall>u sp v q u' sp' v' q'. ts_parts (A, B) u sp v \<longrightarrow> ts_parts (A, B) u' sp' v' \<longrightarrow>
      u @ sp @ v @ q = u' @ sp' @ v' @ q' \<longrightarrow> u = u' \<and> sp = sp'"
  shows "exec True (Seq (Grp g1 a) (Seq spaces (Grp g2 b))) t = None \<longleftrightarrow> \<not> occurs (A, B) t"
    and "exec True (Seq (Grp g1 a) (Seq spaces (Grp g2 b))) t = Some (j, m, caps) \<Longrightarrow>
      ts_found (A, B) t (trim (capture caps g1 @ js '' '' @ capture caps g2))"
proof -
  let ?pat = "Seq (Grp g1 a) (Seq spaces (Grp g2 b))"
  have st: "starts True ?pat k (drop k t) \<longleftrightarrow> occurs_at (A, B) t k" if "k \<le> length t" for k
    using that by (simp add: starts_two_groups [OF a b] occurs_at_drop)
  have "exec True ?pat t = None \<longleftrightarrow> (\<forall>k \<le> length t. \<not> occurs_at (A, B) t k)"
    unfolding exec_def exec_from_None using st by simp
  also have "\<dots> \<longleftrightarrow> \<not> occurs (A, B) t"
    unfolding occurs_def using occurs_at_le by blast
  finally show "exec True ?pat t = None \<longleftrightarrow> \<not> occurs (A, B) t" .
  assume "exec True ?pat t = Some (j, m, caps)"
  then have "exec_from True ?pat 0 t = Some (j, m, caps)" by (simp add: exec_def)
  from exec_from_Some_head [OF this] obtain after ys where k: "j \<le> length t"
    "drop j t = m @ after" "\<forall>k' < j. \<not> starts True ?pat k' (drop k' t)"
    "matcher True ?pat (j, drop j t, []) = (j + length m, after, caps) # ys"
    by (auto simp del: matcher.simps)
  have ns: "no_grp spaces" by (simp add: spaces_def)
  from two_groups_head [OF n(1) ns n(2) k(4)] obtain u sp v cb tl where
    usv: "drop j t = u @ sp @ v @ after" "caps = [(g2, v), (g1, u)]"
    "wm True a j u (sp @ v @ after)" "wm True spaces (j + length u) sp (v @ after)"
    "wm True b (j + length u + length sp) v after"
    "matcher True b (j + length u + length sp, v @ after, [(g1, u)]) =
       (j + length u + length sp + length v, after, cb) # tl" by blast
  have parts: "ts_parts (A, B) u sp v" using usv(3-5) by (simp add: a b ts_parts_def)
  have t: "t = take j t @ u @ sp @ v @ after" using usv(1) by (metis append_take_drop_id)
  have first: "\<not> (\<exists>n < length (take j t). occurs_at (A, B) t n)"
    using k(1,3) st by auto
  have longest: "\<not> (\<exists>u' sp' v' q'. u @ sp @ v @ after = u' @ sp' @ v' @ q' \<and>
      ts_parts (A, B) u' sp' v' \<and> length (u @ sp @ v) < length (u' @ sp' @ v'))"
  proof
    assume "\<exists>u' sp' v' q'. u @ sp @ v @ after = u' @ sp' @ v' @ q' \<and>
      ts_parts (A, B) u' sp' v' \<and> length (u @ sp @ v) < length (u' @ sp' @ v')"
    then obtain u' sp' v' q' where o: "u @ sp @ v @ after = u' @ sp' @ v' @ q'"
      "ts_parts (A, B) u' sp' v'" "length (u @ sp @ v) < length (u' @ sp' @ v')" by blast
    from e [rule_format, OF parts o(2,1)] have same: "u = u'" "sp = sp'" by simp_all
    with o(1,3) have v': "v @ after = v' @ q'" "length v < length v'" by simp_all
    let ?i = "j + length u + length sp"
    from o(2) have "wm True b ?i v' q'" by (simp add: b ts_parts_def)
    from matcher_complete [OF this, of "[(g1, u)]"] obtain c where
      "(?i + length v', q', c) \<in> set (matcher True b (?i, v' @ q', [(g1, u)]))" by blast
    then have "(?i + length v', q', c) \<in> set ((?i + length v, after, cb) # tl)"
      unfolding v'(1) [symmetric] usv(6) .
    moreover have "desc ((?i + length v, after, cb) # tl)"
      using d [of "(?i, v @ after, [(g1, u)])"] unfolding usv(6) .
    ultimately have "?i + length v' \<le> ?i + length v" by auto
    with v'(2) show False by simp
  qed
  have "capture caps g1 = u" "capture caps g2 = v" using usv(2) g by (simp_all add: capture_def)
  with t parts first longest
  show "ts_found (A, B) t (trim (capture caps g1 @ js '' '' @ capture caps g2))"
    unfolding ts_found_def by blast
qed

lemma no_grp_parts: "no_grp (time_re h)" "no_grp date_re" "no_grp opt_space" "no_grp am_pm"
  by (simp_all add: time_re_def date_re_def digits_re_def opt_space_def am_pm_def)

lemma wm_time_marker:
  "wm True (Seq (time_re 1) (Seq opt_space am_pm)) i w after \<longleftrightarrow> time_marker w"
  by (simp add: time_marker_def wm_Seq_cat)

lemma wm_time_opt_marker:
  "wm True (Seq (time_re 1) (Seq opt_space (Rep 0 (Some 1) am_pm))) i w after \<longleftrightarrow>
   time_opt_marker w"
  by (simp add: time_opt_marker_def wm_Seq_cat wm_opt)

lemma pattern_nth:
  "timestampPatterns ! 0 =
     Seq (Grp 1 (Seq (time_re 1) (Seq opt_space am_pm))) (Seq spaces (Grp 2 date_re))"
  "timestampPatterns ! 1 =
     Seq (Grp 1 date_re)
       (Seq spaces (Grp 2 (Seq (time_re 1) (Seq opt_space (Rep 0 (Some 1) am_pm)))))"
  "timestampPatterns ! 2 = Seq (Grp 1 (time_re 2)) (Seq spaces (Grp 2 date_re))"
  "timestampPatterns ! 3 = Seq (Grp 1 date_re) (Seq spaces (Grp 2 (time_re 2)))"
  by (simp_all add: timestampPatterns_def)

lemma shape_nth:
  "ts_shapes ! 0 = (time_marker, is_date)" "ts_shapes ! 1 = (is_date, time_opt_marker)"
  "ts_shapes ! 2 = (is_time 2, is_date)" "ts_shapes ! 3 = (is_date, is_time 2)"
  by (simp_all add: ts_shapes_def)

lemma one_two: "(1::nat) \<noteq> 2"
  by simp

lemma no_grp_time_marker: "no_grp (Seq (time_re 1) (Seq opt_space am_pm))"
  "no_grp (Seq (time_re 1) (Seq opt_space (Rep 0 (Some 1) am_pm)))"
  by (simp_all add: no_grp_parts)

lemma time_opt_marker_head:
  assumes "time_opt_marker v"
  shows "\<exists>d v'. v = d # v' \<and> is_digit d"
proof -
  from assms obtain x y where "v = x @ y" "is_time 1 x"
    unfolding time_opt_marker_def cat_def by blast
  with time_head [of 1 x] show ?thesis by auto
qed

lemma time2_head: "is_time 2 v \<Longrightarrow> \<exists>d v'. v = d # v' \<and> is_digit d"
  by (rule time_head [of 2]) simp_all

lemma ts_end0:
  "ts_parts (time_marker, is_date) u sp v \<Longrightarrow> ts_parts (time_marker, is_date) u' sp' v' \<Longrightarrow>
   u @ sp @ v @ q = u' @ sp' @ v' @ q' \<Longrightarrow> u = u' \<and> sp = sp'"
  by (rule parts_end [where A = time_marker and B = is_date],
      (rule time_marker_end; assumption), (rule date_head; assumption), assumption+)

lemma ts_end1:
  "ts_parts (is_date, time_opt_marker) u sp v \<Longrightarrow> ts_parts (is_date, time_opt_marker) u' sp' v' \<Longrightarrow>
   u @ sp @ v @ q = u' @ sp' @ v' @ q' \<Longrightarrow> u = u' \<and> sp = sp'"
  by (rule parts_end [where A = is_date and B = time_opt_marker],
      (rule date_end; assumption), (rule time_opt_marker_head; assumption), assumption+)

lemma ts_end2:
  "ts_parts (is_time 2, is_date) u sp v \<Longrightarrow> ts_parts (is_time 2, is_date) u' sp' v' \<Longrightarrow>
   u @ sp @ v @ q = u' @ sp' @ v' @ q' \<Longrightarrow> u = u' \<and> sp = sp'"
  by (rule parts_end [where A = "is_time 2" and B = is_date],
      (rule time_end; assumption), (rule date_head; assumption), assumption+)

lemma ts_end3:
  "ts_parts (is_date, is_time 2) u sp v \<Longrightarrow> ts_parts (is_date, is_time 2) u' sp' v' \<Longrightarrow>
   u @ sp @ v @ q = u' @ sp' @ v' @ q' \<Longrightarrow> u = u' \<and> sp = sp'"
  by (rule parts_end [where A = is_date and B = "is_time 2"],
      (rule date_end; assumption), (rule time2_head; assumption), assumption+)

lemma ts_end:
  assumes "k < 4" and "ts_parts (ts_shapes ! k) u sp v" "ts_parts (ts_shapes ! k) u' sp' v'"
    and "u @ sp @ v @ q = u' @ sp' @ v' @ q'"
  shows "u = u' \<and> sp = sp'"
proof -
  from assms(1) consider "k = 0" | "k = 1" | "k = 2" | "k = 3" by arith
  then show ?thesis
  proof cases
    case 1
    from assms(2-4) show ?thesis unfolding 1 shape_nth by (rule ts_end0)
  next
    case 2
    from assms(2-4) show ?thesis unfolding 2 shape_nth by (rule ts_end1)
  next
    case 3
    from assms(2-4) show ?thesis unfolding 3 shape_nth by (rule ts_end2)
  next
    case 4
    from assms(2-4) show ?thesis unfolding 4 shape_nth by (rule ts_end3)
  qed
qed

text \<open>A text holds one timestamp of a shape at most.\<close>

lemma ts_found_unique:
  assumes k: "k < 4" and r: "ts_found (ts_shapes ! k) t r" and r': "ts_found (ts_shapes ! k) t r'"
  shows "r = r'"
proof -
  let ?sh = "ts_shapes ! k"
  from r obtain p u sp v q where f: "t = p @ u @ sp @ v @ q" "ts_parts ?sh u sp v"
    "\<not> (\<exists>n < length p. occurs_at ?sh t n)"
    "\<not> (\<exists>u' sp' v' q'. u @ sp @ v @ q = u' @ sp' @ v' @ q' \<and> ts_parts ?sh u' sp' v' \<and>
         length (u @ sp @ v) < length (u' @ sp' @ v'))"
    "r = trim (u @ js '' '' @ v)"
    unfolding ts_found_def by blast
  from r' obtain p' u' sp' v' q' where f': "t = p' @ u' @ sp' @ v' @ q'" "ts_parts ?sh u' sp' v'"
    "\<not> (\<exists>n < length p'. occurs_at ?sh t n)"
    "\<not> (\<exists>u sp v q. u' @ sp' @ v' @ q' = u @ sp @ v @ q \<and> ts_parts ?sh u sp v \<and>
         length (u' @ sp' @ v') < length (u @ sp @ v))"
    "r' = trim (u' @ js '' '' @ v')"
    unfolding ts_found_def by blast
  have "occurs_at ?sh t (length p)" "occurs_at ?sh t (length p')"
    unfolding occurs_at_def using f(1,2) f'(1,2) by blast+
  with f(3) f'(3) have "length p = length p'" by (meson linorder_neqE_nat)
  with f(1) f'(1) have p: "p = p'" "u @ sp @ v @ q = u' @ sp' @ v' @ q'" by auto
  from ts_end [OF k f(2) f'(2) p(2)] have same: "u = u'" "sp = sp'" by simp_all
  from f(4) f'(2) p(2) have "\<not> length (u @ sp @ v) < length (u' @ sp' @ v')" by blast
  moreover from f'(4) f(2) p(2) have "\<not> length (u' @ sp' @ v') < length (u @ sp @ v)"
    by (metis (no_types))
  ultimately have "length v = length v'" using same by simp
  with p(2) same have "v = v'" by simp
  with same f(5) f'(5) show ?thesis by simp
qed

lemma ts_end_all:
  "\<forall>u sp v q u' sp' v' q'. ts_parts (time_marker, is_date) u sp v \<longrightarrow>
     ts_parts (time_marker, is_date) u' sp' v' \<longrightarrow> u @ sp @ v @ q = u' @ sp' @ v' @ q' \<longrightarrow>
     u = u' \<and> sp = sp'"
  "\<forall>u sp v q u' sp' v' q'. ts_parts (is_date, time_opt_marker) u sp v \<longrightarrow>
     ts_parts (is_date, time_opt_marker) u' sp' v' \<longrightarrow> u @ sp @ v @ q = u' @ sp' @ v' @ q' \<longrightarrow>
     u = u' \<and> sp = sp'"
  "\<forall>u sp v q u' sp' v' q'. ts_parts (is_time 2, is_date) u sp v \<longrightarrow>
     ts_parts (is_time 2, is_date) u' sp' v' \<longrightarrow> u @ sp @ v @ q = u' @ sp' @ v' @ q' \<longrightarrow>
     u = u' \<and> sp = sp'"
  "\<forall>u sp v q u' sp' v' q'. ts_parts (is_date, is_time 2) u sp v \<longrightarrow>
     ts_parts (is_date, is_time 2) u' sp' v' \<longrightarrow> u @ sp @ v @ q = u' @ sp' @ v' @ q' \<longrightarrow>
     u = u' \<and> sp = sp'"
  by (intro allI impI, erule (2) ts_end0 ts_end1 ts_end2 ts_end3)+

lemmas exec_p0 = exec_two_groups
  [OF wm_time_marker wm_date no_grp_time_marker(1) no_grp_parts(2) one_two date_desc ts_end_all(1)]
lemmas exec_p1 = exec_two_groups
  [OF wm_date wm_time_opt_marker no_grp_parts(2) no_grp_time_marker(2) one_two
    time_opt_marker_desc ts_end_all(2)]
lemmas exec_p2 = exec_two_groups
  [OF wm_time [OF order_refl] wm_date no_grp_parts(1) no_grp_parts(2) one_two date_desc ts_end_all(3)]
lemmas exec_p3 = exec_two_groups
  [OF wm_date wm_time [OF order_refl] no_grp_parts(2) no_grp_parts(1) one_two
    time_desc [OF order_refl] ts_end_all(4)]

lemma timestamp_none:
  "k < 4 \<Longrightarrow> exec True (timestampPatterns ! k) t = None \<longleftrightarrow> \<not> occurs (ts_shapes ! k) t"
proof -
  assume "k < 4"
  then consider "k = 0" | "k = 1" | "k = 2" | "k = 3" by arith
  then show ?thesis
  proof cases
    case 1
    show ?thesis unfolding 1 pattern_nth shape_nth by (rule exec_p0(1))
  next
    case 2
    show ?thesis unfolding 2 pattern_nth shape_nth by (rule exec_p1(1))
  next
    case 3
    show ?thesis unfolding 3 pattern_nth shape_nth by (rule exec_p2(1))
  next
    case 4
    show ?thesis unfolding 4 pattern_nth shape_nth by (rule exec_p3(1))
  qed
qed

lemma timestamp_some:
  assumes "k < 4" and "exec True (timestampPatterns ! k) t = Some (j, m, caps)"
  shows "ts_found (ts_shapes ! k) t (trim (capture caps 1 @ js '' '' @ capture caps 2))"
proof -
  from assms(1) consider "k = 0" | "k = 1" | "k = 2" | "k = 3" by arith
  then show ?thesis
  proof cases
    case 1
    from assms(2) show ?thesis unfolding 1 pattern_nth shape_nth by (rule exec_p0(2))
  next
    case 2
    from assms(2) show ?thesis unfolding 2 pattern_nth shape_nth by (rule exec_p1(2))
  next
    case 3
    from assms(2) show ?thesis unfolding 3 pattern_nth shape_nth by (rule exec_p2(2))
  next
    case 4
    from assms(2) show ?thesis unfolding 4 pattern_nth shape_nth by (rule exec_p3(2))
  qed
qed

lemma length_timestampPatterns: "length timestampPatterns = 4"
  by (simp add: timestampPatterns_def)

lemma drop_timestampPatterns:
  "k < 4 \<Longrightarrow> drop k timestampPatterns = timestampPatterns ! k # drop (Suc k) timestampPatterns"
  by (simp add: Cons_nth_drop_Suc length_timestampPatterns)

lemma findTimestamp_miss:
  "k < 4 \<Longrightarrow> \<not> occurs (ts_shapes ! k) t \<Longrightarrow>
   findTimestamp (drop k timestampPatterns) t = findTimestamp (drop (Suc k) timestampPatterns) t"
proof -
  assume k: "k < 4" and "\<not> occurs (ts_shapes ! k) t"
  then have "exec True (timestampPatterns ! k) t = None" by (simp add: timestamp_none)
  then show ?thesis by (simp add: drop_timestampPatterns [OF k])
qed

lemma findTimestamp_hit:
  assumes "k < 4" and "occurs (ts_shapes ! k) t"
  shows "ts_found (ts_shapes ! k) t (findTimestamp (drop k timestampPatterns) t)"
proof -
  from assms have "exec True (timestampPatterns ! k) t \<noteq> None" by (simp add: timestamp_none)
  then obtain j m caps where e: "exec True (timestampPatterns ! k) t = Some (j, m, caps)"
    by (cases "exec True (timestampPatterns ! k) t") auto
  from timestamp_some [OF assms(1) e] show ?thesis
    by (simp add: drop_timestampPatterns [OF assms(1)] e)
qed

lemma findTimestamp_none:
  "k \<le> 4 \<Longrightarrow> (\<And>k'. k \<le> k' \<Longrightarrow> k' < 4 \<Longrightarrow> \<not> occurs (ts_shapes ! k') t) \<Longrightarrow>
   findTimestamp (drop k timestampPatterns) t = not_found"
proof (induction "4 - k" arbitrary: k)
  case 0
  then show ?case by (simp add: length_timestampPatterns)
next
  case (Suc d)
  from Suc.hyps(2) have k: "k < 4" by simp
  have "findTimestamp (drop (Suc k) timestampPatterns) t = not_found"
    using Suc.hyps(2) Suc.prems(2) by (intro Suc.hyps(1)) auto
  with findTimestamp_miss [OF k Suc.prems(2) [OF order_refl k]] show ?case by simp
qed

lemma findTimestamp_first:
  "k \<le> n \<Longrightarrow> n < 4 \<Longrightarrow> occurs (ts_shapes ! n) t \<Longrightarrow>
   (\<And>k'. k \<le> k' \<Longrightarrow> k' < n \<Longrightarrow> \<not> occurs (ts_shapes ! k') t) \<Longrightarrow>
   ts_found (ts_shapes ! n) t (findTimestamp (drop k timestampPatterns) t)"
proof (induction "n - k" arbitrary: k)
  case 0
  then have "k = n" by simp
  with 0 findTimestamp_hit [of n t] show ?case by simp
next
  case (Suc d)
  from Suc.hyps(2) have k: "k < n" by simp
  with Suc.prems(2) have k4: "k < 4" by simp
  have "ts_found (ts_shapes ! n) t (findTimestamp (drop (Suc k) timestampPatterns) t)"
    using Suc.hyps(2) Suc.prems k by (intro Suc.hyps(1)) auto
  with findTimestamp_miss [OF k4 Suc.prems(4) [OF order_refl k]] show ?case by simp
qed

subsection \<open>Fields are never empty\<close>

lemma set_dropWhile_keep: "c \<in> set s \<Longrightarrow> \<not> P c \<Longrightarrow> c \<in> set (dropWhile P s)"
  by (induction s) auto

lemma trim_nonempty: "c \<in> set s \<Longrightarrow> \<not> is_space c \<Longrightarrow> trim s \<noteq> []"
proof -
  assume c: "c \<in> set s" "\<not> is_space c"
  then have "c \<in> set (rev (dropWhile is_space s))" by (simp add: set_dropWhile_keep)
  then have "c \<in> set (dropWhile is_space (rev (dropWhile is_space s)))"
    using c(2) by (rule set_dropWhile_keep)
  then have "dropWhile is_space (rev (dropWhile is_space s)) \<noteq> []"
    by (auto simp del: dropWhile_eq_Nil_conv)
  then show ?thesis by (simp add: trim_def)
qed

lemma nat_digits_nonempty: "nat_digits n \<noteq> []"
  by (subst nat_digits.simps) simp

lemma toString_nonempty: "toString n \<noteq> []"
proof (cases n)
  case NaN
  then show ?thesis by (simp add: toString_def js_def)
next
  case (Dec neg m k)
  obtain m' k' where "strip_zeros m k = (m', k')" by (cases "strip_zeros m k")
  with Dec show ?thesis by (simp add: toString_def nat_digits_nonempty)
qed

lemma not_found_nonempty: "not_found \<noteq> []"
  by (simp add: not_found_def js_def)

lemma firstInRange_nonempty: "firstInRange lo hi coords \<noteq> []"
  by (simp add: firstInRange_def toString_nonempty not_found_nonempty split: list.splits)

lemma first_shape_digit:
  assumes "k < 4" and "fst (ts_shapes ! k) u"
  shows "\<exists>d u'. u = d # u' \<and> is_digit d"
proof -
  from assms(1) consider "k = 0" | "k = 1" | "k = 2" | "k = 3" by arith
  then show ?thesis
  proof cases
    case 1
    from assms(2) [unfolded 1 shape_nth] have "time_marker u" by simp
    then show ?thesis unfolding time_marker_def using time_head [of 1] by (rule cat_head) simp
  next
    case 2
    from assms(2) [unfolded 2 shape_nth] have "is_date u" by simp
    then show ?thesis by (rule date_head)
  next
    case 3
    from assms(2) [unfolded 3 shape_nth] have "is_time 2 u" by simp
    then show ?thesis by (intro time_head [of 2]) simp_all
  next
    case 4
    from assms(2) [unfolded 4 shape_nth] have "is_date u" by simp
    then show ?thesis by (rule date_head)
  qed
qed

lemma ts_found_nonempty: "k < 4 \<Longrightarrow> ts_found (ts_shapes ! k) t r \<Longrightarrow> r \<noteq> []"
proof -
  assume k: "k < 4" and "ts_found (ts_shapes ! k) t r"
  then obtain u sp v where r: "r = trim (u @ js '' '' @ v)" and "fst (ts_shapes ! k) u"
    unfolding ts_found_def ts_parts_def by blast
  with first_shape_digit [OF k] obtain d u' where "u = d # u'" "is_digit d" by blast
  with r trim_nonempty [of d "u @ js '' '' @ v"] show ?thesis by (simp add: digit_not_space)
qed

text \<open>
  The timestamp is \<open>Not found\<close> when none of the four shapes occurs, and otherwise the
  timestamp read where the first shape that occurs occurs first.
\<close>

lemma findTimestamp_cases:
  "(findTimestamp timestampPatterns t = not_found \<and> (\<forall>k < 4. \<not> occurs (ts_shapes ! k) t)) \<or>
   (\<exists>n < 4. ts_found (ts_shapes ! n) t (findTimestamp timestampPatterns t) \<and>
      (\<forall>k < n. \<not> occurs (ts_shapes ! k) t))"
proof (cases "\<exists>k < 4. occurs (ts_shapes ! k) t")
  case False
  then have no: "\<And>k. k < 4 \<Longrightarrow> \<not> occurs (ts_shapes ! k) t" by blast
  have "findTimestamp (drop 0 timestampPatterns) t = not_found"
    by (rule findTimestamp_none) (simp_all add: no)
  with no show ?thesis by simp
next
  case True
  define n where "n = (LEAST k. k < 4 \<and> occurs (ts_shapes ! k) t)"
  from True have n: "n < 4 \<and> occurs (ts_shapes ! n) t"
    unfolding n_def by (rule LeastI_ex)
  have least: "\<not> occurs (ts_shapes ! k) t" if "k < n" for k
  proof
    assume "occurs (ts_shapes ! k) t"
    with that n have "k < 4 \<and> occurs (ts_shapes ! k) t" by simp
    then have "n \<le> k" unfolding n_def by (rule Least_le)
    with that show False by simp
  qed
  have "ts_found (ts_shapes ! n) t (findTimestamp (drop 0 timestampPatterns) t)"
    using n by (intro findTimestamp_first) (simp_all add: least)
  with n least show ?thesis by auto
qed

lemma findTimestamp_nonempty: "findTimestamp timestampPatterns t \<noteq> []"
  using findTimestamp_cases [of t] not_found_nonempty ts_found_nonempty by metis

subsection \<open>The plus code\<close>

lemma starts_plus: "starts True simplePlusCodeRegex i s \<longleftrightarrow> (\<exists>w q. s = w @ q \<and> plus_token w)"
  by (simp add: starts_def)

lemma plus_token_chars: "plus_token w \<Longrightarrow> c \<in> set w \<Longrightarrow> alnum c \<or> c = 43"
  by (auto simp: plus_token_def cat_def lit_def many_def js_def list_all_iff)

lemma plus_token_plus: "plus_token w \<Longrightarrow> 43 \<in> set w"
  by (auto simp: plus_token_def cat_def lit_def js_def)

lemma alnum_not_space: "alnum c \<or> c = 43 \<Longrightarrow> \<not> is_space c"
  by (auto simp: alnum_def is_digit_def is_space_def)

lemma dropWhile_id: "(xs \<noteq> [] \<Longrightarrow> \<not> P (hd xs)) \<Longrightarrow> dropWhile P xs = xs"
  by (cases xs) auto

lemma trim_no_space:
  assumes "\<And>c. c \<in> set s \<Longrightarrow> \<not> is_space c"
  shows "trim s = s"
proof -
  have "dropWhile is_space s = s"
    by (rule dropWhile_id) (simp add: assms)
  moreover have "dropWhile is_space (rev s) = rev s"
    by (rule dropWhile_id) (simp add: assms hd_rev)
  ultimately show ?thesis by (simp add: trim_def)
qed

lemma trim_plus_token: "plus_token w \<Longrightarrow> trim w = w"
proof (rule trim_no_space)
  fix c assume "plus_token w" "c \<in> set w"
  then have "alnum c \<or> c = 43" by (rule plus_token_chars)
  then show "\<not> is_space c" by (rule alnum_not_space)
qed

subsection \<open>Patterns without assertions: tokens\<close>

lemma token_at_drop:
  "token_at T t n \<longleftrightarrow> n \<le> length t \<and> (\<exists>w q. drop n t = w @ q \<and> T w)"
proof
  assume "token_at T t n"
  then obtain p w q where "t = p @ w @ q" "length p = n" "T w" unfolding token_at_def by blast
  then show "n \<le> length t \<and> (\<exists>w q. drop n t = w @ q \<and> T w)" by auto
next
  assume r: "n \<le> length t \<and> (\<exists>w q. drop n t = w @ q \<and> T w)"
  then obtain w q where "drop n t = w @ q" "T w" by blast
  with r have "t = take n t @ w @ q \<and> length (take n t) = n \<and> T w"
    by (metis append_take_drop_id length_take min.absorb2)
  then show "token_at T t n" unfolding token_at_def by blast
qed

lemma token_at_le: "token_at T t n \<Longrightarrow> n \<le> length t"
  by (simp add: token_at_drop)

lemma starts_token:
  "(\<And>i w after. wm ic r i w after \<longleftrightarrow> T w) \<Longrightarrow> k \<le> length t \<Longrightarrow>
   starts ic r i (drop k t) \<longleftrightarrow> token_at T t k"
  by (simp add: starts_def token_at_drop)

lemma exec_token_None:
  assumes "\<And>i w after. wm ic r i w after \<longleftrightarrow> T w"
  shows "exec ic r t = None \<longleftrightarrow> \<not> contains T t"
proof -
  have "exec ic r t = None \<longleftrightarrow> (\<forall>k \<le> length t. \<not> token_at T t k)"
    unfolding exec_def exec_from_None using starts_token [of ic r T _ t, OF assms] by simp
  also have "\<dots> \<longleftrightarrow> \<not> contains T t"
    unfolding contains_def using token_at_le by blast
  finally show ?thesis .
qed

lemma exec_token_Some:
  assumes "\<And>i w after. wm ic r i w after \<longleftrightarrow> T w" and "exec ic r t = Some (j, m, caps)"
  shows "\<exists>p q. t = p @ m @ q \<and> length p = j \<and> T m \<and> \<not> (\<exists>n < j. token_at T t n)"
proof -
  from assms(2) have "exec_from ic r 0 t = Some (j, m, caps)" by (simp add: exec_def)
  from exec_from_Some [OF this] obtain after where k: "j \<le> length t" "drop j t = m @ after"
    "\<forall>k' < j. \<not> starts ic r k' (drop k' t)" "wm ic r j m after"
    by (auto simp del: matcher.simps)
  have "t = take j t @ m @ after" using k(2) by (metis append_take_drop_id)
  moreover have "length (take j t) = j" using k(1) by simp
  moreover have "T m" using k(4) assms(1) by simp
  moreover have "\<not> (\<exists>n < j. token_at T t n)"
    using k(1,3) starts_token [of ic r T _ t, OF assms(1)] by auto
  ultimately show ?thesis by blast
qed

subsection \<open>The plus code\<close>

lemma findPlusCode_none: "\<not> contains plus_token t \<Longrightarrow> findPlusCode t = not_found"
proof -
  assume "\<not> contains plus_token t"
  then have "exec True simplePlusCodeRegex t = None"
    using exec_token_None [of True simplePlusCodeRegex plus_token t] by simp
  then show ?thesis by (simp add: findPlusCode_def)
qed

lemma findPlusCode_some:
  assumes "contains plus_token t"
  shows "\<exists>p pc q sfx. t = p @ pc @ q \<and> plus_token pc \<and>
    \<not> (\<exists>n < length p. token_at plus_token t n) \<and> findPlusCode t = pc @ sfx"
proof -
  from assms have "exec True simplePlusCodeRegex t \<noteq> None"
    using exec_token_None [of True simplePlusCodeRegex plus_token t] by simp
  then obtain j m caps where e: "exec True simplePlusCodeRegex t = Some (j, m, caps)"
    by (cases "exec True simplePlusCodeRegex t") auto
  from exec_token_Some [of True simplePlusCodeRegex plus_token, OF _ e] obtain p q where
    pq: "t = p @ m @ q" "length p = j" "plus_token m" "\<not> (\<exists>n < j. token_at plus_token t n)"
    by auto
  have "\<exists>sfx. findPlusCode t = m @ sfx"
    by (simp add: findPlusCode_def e trim_plus_token [OF pq(3)] Let_def)
  with pq show ?thesis by blast
qed

lemma findPlusCode_nonempty: "findPlusCode t \<noteq> []"
proof (cases "contains plus_token t")
  case True
  from findPlusCode_some [OF True] obtain pc sfx where "plus_token pc" "findPlusCode t = pc @ sfx"
    by blast
  with plus_token_plus [of pc] show ?thesis by auto
next
  case False
  then show ?thesis by (simp add: findPlusCode_none not_found_nonempty)
qed

subsection \<open>Scanning for all matches\<close>

lemma token_at_Cons: "token_at T (c # cs) (Suc n) \<longleftrightarrow> token_at T cs n"
  by (simp add: token_at_drop)

lemma contains_Cons: "contains T (c # cs) \<longleftrightarrow> token_at T (c # cs) 0 \<or> contains T cs"
  unfolding contains_def by (metis token_at_Cons not0_implies_Suc)

lemma scans_skip:
  assumes "\<not> token_at T (c # cs) 0" and "scans T cs ws"
  shows "scans T (c # cs) ws"
  using assms(2)
proof (cases rule: scans.cases)
  case scans_none
  with assms(1) show ?thesis by (auto simp: contains_Cons intro: scans.scans_none)
next
  case (scans_next p w q ws')
  have "\<not> (\<exists>n < length (c # p). token_at T (c # cs) n)"
  proof
    assume "\<exists>n < length (c # p). token_at T (c # cs) n"
    then obtain n where n: "n < Suc (length p)" "token_at T (c # cs) n" by auto
    show False
    proof (cases n)
      case 0
      with n assms(1) show False by simp
    next
      case (Suc n')
      with n scans_next(4) show False by (auto simp: token_at_Cons)
    qed
  qed
  with scans_next(2-3,5,6) show ?thesis
    unfolding scans_next(1) by (intro scans.scans_next [where p = "c # p" and q = q]) auto
qed

text \<open>
  The scan of the source finds the longest match at each index when the pattern lists
  its longest match first.
\<close>

lemma match_all_from_scans:
  assumes r: "\<And>i w after. wm ic r i w after \<longleftrightarrow> T w" and ne: "\<And>w. T w \<Longrightarrow> w \<noteq> []"
    and gr: "\<And>x y ys z. matcher ic r x = y # ys \<Longrightarrow> z \<in> set ys \<Longrightarrow> fst z \<le> fst y"
  shows "scans T t (match_all_from ic r i t)"
proof (induction "length t" arbitrary: t i rule: less_induct)
  case less
  show ?case
  proof (cases "matcher ic r (i, t, [])")
    case Nil
    then have no: "\<not> token_at T t 0"
      using starts_token [of ic r T 0 t i, OF r] by (simp add: matcher_empty_iff)
    show ?thesis
    proof (cases t)
      case Nil': Nil
      have "\<not> contains T []" using ne by (auto simp: contains_def token_at_def)
      with Nil Nil' show ?thesis
        by (subst match_all_from.simps) (simp add: scans_none)
    next
      case (Cons c cs)
      have "scans T cs (match_all_from ic r (Suc i) cs)" by (rule less) (simp add: Cons)
      with no Cons have "scans T t (match_all_from ic r (Suc i) cs)"
        by (simp add: scans_skip)
      with Nil Cons show ?thesis by (subst match_all_from.simps) simp
    qed
  next
    case (Cons y ys)
    obtain j rest' caps where y: "y = (j, rest', caps)" by (cases y)
    from matcher_head [OF Cons [unfolded y]] obtain w where w: "t = w @ rest'"
      "j = i + length w" "take (j - i) t = w" "wm ic r i w rest'" by blast
    from w(4) have Tw: "T w" by (simp add: r)
    with ne have "w \<noteq> []" by simp
    with w(1) have shorter: "length rest' < length t" by simp
    then have "scans T rest' (match_all_from ic r j rest')" by (rule less)
    moreover have "\<not> (\<exists>w' q'. T w' \<and> w @ rest' = w' @ q' \<and> length w < length w')"
    proof
      assume "\<exists>w' q'. T w' \<and> w @ rest' = w' @ q' \<and> length w < length w'"
      then obtain w' q' where w': "T w'" "w @ rest' = w' @ q'" "length w < length w'" by blast
      from w'(1) have "wm ic r i w' q'" by (simp add: r)
      from matcher_complete [OF this, of "[]"] w'(2) w(1) Cons obtain c where
        "(i + length w', q', c) \<in> set (y # ys)" by auto
      with w'(3) w(2) y have "(i + length w', q', c) \<in> set ys" by auto
      from gr [OF Cons this] w'(3) w(2) y show False by simp
    qed
    ultimately have "scans T t (w # match_all_from ic r j rest')"
      using Tw w(1) by (intro scans_next [of t "[]" w rest']) auto
    with Cons y shorter w(3) show ?thesis by (subst match_all_from.simps) simp
  qed
qed

lemma scans_tokens: "scans T t ws \<Longrightarrow> list_all T ws"
  by (induction rule: scans.induct) auto

text \<open>A text has one scan only.\<close>

lemma scans_unique: "scans T t ws \<Longrightarrow> scans T t ws' \<Longrightarrow> ws = ws'"
proof (induction arbitrary: ws' rule: scans.induct)
  case (scans_none T t)
  from scans_none.prems scans_none.hyps show ?case
    by (cases rule: scans.cases) (auto simp: contains_def token_at_def)
next
  case (scans_next t p w q T ws)
  from scans_next.prems show ?case
  proof (cases rule: scans.cases)
    case scans_none
    with scans_next.hyps(1,2) show ?thesis by (auto simp: contains_def token_at_def)
  next
    case other: (scans_next p' w' q' ws'')
    have "\<not> length p < length p'"
      using other(4) scans_next.hyps(1,2) by (auto simp: token_at_def)
    moreover have "\<not> length p' < length p"
      using scans_next.hyps(3) other(2,3) by (auto simp: token_at_def)
    ultimately have "length p = length p'" by simp
    with scans_next.hyps(1) other(2) have p: "p = p'" "w @ q = w' @ q'" by auto
    with scans_next.hyps(2,5) other(3,6) have "\<not> length w < length w'" "\<not> length w' < length w"
      by metis+
    then have "length w = length w'" by simp
    with p(2) have "w = w'" "q = q'" by auto
    with other(1,5) scans_next.IH show ?thesis by simp
  qed
qed

subsection \<open>Reading a coordinate token\<close>

lemma exec_from_Chr_miss:
  "p \<notin> set s \<Longrightarrow> exec_from False (Chr p) i s = None"
  by (induction s arbitrary: i) (subst exec_from.simps, simp add: chr_match_def)+

lemma exec_from_Chr_hit:
  "p \<notin> set a \<Longrightarrow> exec_from False (Chr p) i (a @ p # b) = Some (i + length a, [p], [])"
  by (induction a arbitrary: i) (subst exec_from.simps, simp add: chr_match_def)+

lemma replace_first_Chr_hit:
  "p \<notin> set a \<Longrightarrow> replace_first False (Chr p) new (a @ p # b) = a @ new @ b"
  by (simp add: replace_first_def exec_def exec_from_Chr_hit)

lemma replace_first_Chr_miss:
  "p \<notin> set s \<Longrightarrow> replace_first False (Chr p) new s = s"
  by (simp add: replace_first_def exec_def exec_from_Chr_miss)

lemma digits_no_comma: "list_all is_digit d \<Longrightarrow> 44 \<notin> set d" "list_all is_digit d \<Longrightarrow> 46 \<notin> set d"
  by (auto simp: list_all_iff is_digit_def)

lemma replace_comma_token:
  assumes "opt (lit (js ''-'')) sg" "list_all is_digit d1" "either (lit (js ''.'')) (lit (js '','')) sep"
    "list_all is_digit d2"
  shows "replace_comma (sg @ d1 @ sep @ d2) = sg @ d1 @ 46 # d2"
proof -
  from assms(1) have sg: "44 \<notin> set sg" by (auto simp: opt_def lit_def js_def)
  from assms(3) consider "sep = [46]" | "sep = [44]" by (auto simp: either_def lit_def js_def)
  then show ?thesis
  proof cases
    case 1
    have "44 \<notin> set (sg @ d1 @ sep @ d2)"
      using sg digits_no_comma(1) [OF assms(2)] digits_no_comma(1) [OF assms(4)] 1 by simp
    then show ?thesis
      by (simp add: replace_comma_def replace_first_Chr_miss 1)
  next
    case 2
    have "44 \<notin> set (sg @ d1)" using sg digits_no_comma(1) [OF assms(2)] by simp
    from replace_first_Chr_hit [OF this, of "js ''.''" d2] show ?thesis
      by (simp add: replace_comma_def 2 js_def)
  qed
qed

lemma takeWhile_digits: "list_all is_digit d \<Longrightarrow> takeWhile is_digit (d @ 46 # e) = d"
  by (induction d) (auto simp: is_digit_def)

lemma dropWhile_digits: "list_all is_digit d \<Longrightarrow> dropWhile is_digit (d @ 46 # e) = 46 # e"
  by (induction d) (auto simp: is_digit_def)

lemma takeWhile_all: "list_all P d \<Longrightarrow> takeWhile P d = d"
  by (induction d) auto

lemma parseFloat_token:
  assumes "opt (lit (js ''-'')) sg" "digits 1 3 d1" "digits 3 12 d2"
  shows "parseFloat (sg @ d1 @ 46 # d2) = Dec (sg \<noteq> []) (digits_val (d1 @ d2)) (length d2)"
proof -
  from assms(2) obtain c d1' where d1: "d1 = c # d1'" "is_digit c" "list_all is_digit d1"
    by (cases d1) (auto simp: digits_def many_def)
  from assms(3) have d2: "list_all is_digit d2" "d2 \<noteq> []" by (auto simp: digits_def many_def)
  have c: "\<not> is_space c" "c \<noteq> 45" "c \<noteq> 43" using d1(2) by (auto simp: is_digit_def is_space_def)
  from assms(1) consider "sg = []" | "sg = [45]" by (auto simp: opt_def lit_def js_def)
  then show ?thesis
  proof cases
    case 1
    have t: "dropWhile is_space (sg @ d1 @ 46 # d2) = d1 @ 46 # d2" using 1 d1(1) c by simp
    show ?thesis
      unfolding parseFloat_def t Let_def
      using d1 d2 c 1 takeWhile_digits [OF d1(3), of d2] dropWhile_digits [OF d1(3), of d2]
      by (simp add: takeWhile_all)
  next
    case 2
    have t: "dropWhile is_space (sg @ d1 @ 46 # d2) = 45 # d1 @ 46 # d2"
      using 2 by (simp add: is_space_def)
    show ?thesis
      unfolding parseFloat_def t Let_def
      using d1 d2 2 takeWhile_digits [OF d1(3), of d2] dropWhile_digits [OF d1(3), of d2]
      by (simp add: takeWhile_all)
  qed
qed

lemma coord_token_value: "coord_token w \<Longrightarrow> token_value w (parseFloat (replace_comma w))"
proof -
  assume "coord_token w"
  then obtain sg d1 sep d2 where p: "w = sg @ d1 @ sep @ d2" "opt (lit (js ''-'')) sg"
    "digits 1 3 d1" "either (lit (js ''.'')) (lit (js '','')) sep" "digits 3 12 d2"
    unfolding coord_token_def cat_def by auto
  then have d: "list_all is_digit d1" "list_all is_digit d2" by (auto simp: digits_def many_def)
  from replace_comma_token [OF p(2) d(1) p(4) d(2)] parseFloat_token [OF p(2,3,5)] p
  show ?thesis unfolding token_value_def by auto
qed

section \<open>Selecting the first number in a range\<close>

lemmas eval_simps = rep.simps exec_from.simps match_all_from.simps replace_all_from.simps
  split_from.simps nat_digits.simps strip_zeros.simps

lemmas regex_defs = simplePlusCodeRegex_def upper_digit_def separators_def word2_def
  addressCleanupRegex_def trailingSeparators_def allNumbersRegex_def digits_re_def date_re_def
  time_re_def am_pm_def opt_space_def spaces_def timestampPatterns_def

lemmas char_defs = cls_match_def chr_match_def is_space_def is_digit_def upper_def lower_def
  alnum_def

lemma firstInRange_none:
  "\<forall>v \<in> set vals. \<not> in_range lo hi v \<Longrightarrow> firstInRange lo hi vals = not_found"
proof -
  assume "\<forall>v \<in> set vals. \<not> in_range lo hi v"
  then have "filter (\<lambda>n. num_ge n lo \<and> num_le n hi) vals = []"
    by (auto simp: in_range_def filter_empty_conv)
  then show ?thesis by (simp add: firstInRange_def)
qed

lemma firstInRange_first:
  assumes "vals = pre @ v # post" "in_range lo hi v" "\<forall>u \<in> set pre. \<not> in_range lo hi u"
  shows "firstInRange lo hi vals = toString v"
proof -
  from assms(3) have "filter (\<lambda>n. num_ge n lo \<and> num_le n hi) pre = []"
    by (auto simp: in_range_def filter_empty_conv)
  with assms(1,2) have "filter (\<lambda>n. num_ge n lo \<and> num_le n hi) vals =
      v # filter (\<lambda>n. num_ge n lo \<and> num_le n hi) post"
    by (simp add: in_range_def)
  then show ?thesis by (simp add: firstInRange_def)
qed

lemma firstInRange_selected:
  "firstInRange lo hi vals = not_found \<or>
   (\<exists>v \<in> set vals. in_range lo hi v \<and> firstInRange lo hi vals = toString v)"
proof (cases "filter (\<lambda>n. num_ge n lo \<and> num_le n hi) vals")
  case Nil
  then show ?thesis by (simp add: firstInRange_def)
next
  case (Cons v vs)
  then have "v \<in> set (filter (\<lambda>n. num_ge n lo \<and> num_le n hi) vals)" by simp
  then have "v \<in> set vals" "in_range lo hi v" by (simp_all add: in_range_def)
  with Cons show ?thesis by (auto simp: firstInRange_def)
qed

lemma coord_token_nonempty: "coord_token w \<Longrightarrow> w \<noteq> []"
  by (auto simp: coord_token_def cat_def digits_def many_def)

lemma match_all_coords:
  "scans coord_token t (match_all False allNumbersRegex t)"
  unfolding match_all_def
proof (rule match_all_from_scans)
  fix x y ys z
  assume "matcher False allNumbersRegex x = y # ys" "z \<in> set ys"
  with coord_sorted [of x] show "fst z \<le> fst y" by auto
qed (simp_all add: coord_token_nonempty)

lemma potentialCoords_values:
  "list_all2 token_value (match_all False allNumbersRegex t) (potentialCoords t)"
proof -
  have "list_all coord_token (match_all False allNumbersRegex t)"
    using match_all_coords by (rule scans_tokens)
  then show ?thesis
    unfolding potentialCoords_def list_all2_map2
    by (auto simp: list_all_iff intro!: list_all2_same [THEN iffD2] coord_token_value)
qed

section \<open>The text behind the plus code\<close>

text \<open>
  \<open>split\<close> cuts the text at the occurrences of the separator: the first piece ends where
  the separator occurs first, and a text without the separator is one piece.
\<close>

lemma split_from_none:
  "sep \<noteq> [] \<Longrightarrow> \<not> contains (lit sep) s \<Longrightarrow> split_from sep acc s = [rev acc @ s]"
proof (induction s arbitrary: acc)
  case Nil
  then show ?case by (subst split_from.simps) simp
next
  case (Cons c cs)
  have "take (length sep) (c # cs) \<noteq> sep"
  proof
    assume "take (length sep) (c # cs) = sep"
    then have "c # cs = [] @ sep @ drop (length sep) (c # cs)"
      by (metis append_Nil append_take_drop_id)
    then have "token_at (lit sep) (c # cs) 0" unfolding token_at_def lit_def by blast
    with Cons.prems(2) show False by (auto simp: contains_def)
  qed
  moreover from Cons.prems(2) have "\<not> contains (lit sep) cs" by (simp add: contains_Cons)
  ultimately show ?case
    using Cons.prems(1) Cons.IH [of "c # acc"] by (subst split_from.simps) simp
qed

lemma split_from_first:
  "sep \<noteq> [] \<Longrightarrow> \<not> (\<exists>n < length p. token_at (lit sep) (p @ sep @ q) n) \<Longrightarrow>
   split_from sep acc (p @ sep @ q) = (rev acc @ p) # split_from sep [] q"
proof (induction p arbitrary: acc)
  case Nil
  then show ?case by (subst split_from.simps) simp
next
  case (Cons c p)
  have "take (length sep) (c # p @ sep @ q) \<noteq> sep"
  proof
    assume "take (length sep) (c # p @ sep @ q) = sep"
    then have "c # p @ sep @ q = [] @ sep @ drop (length sep) (c # p @ sep @ q)"
      by (metis append_Nil append_take_drop_id)
    then have "token_at (lit sep) (c # p @ sep @ q) 0" unfolding token_at_def lit_def by blast
    with Cons.prems(2) show False by auto
  qed
  moreover have "\<not> (\<exists>n < length p. token_at (lit sep) (p @ sep @ q) n)"
  proof
    assume "\<exists>n < length p. token_at (lit sep) (p @ sep @ q) n"
    then obtain n where "n < length p" "token_at (lit sep) (p @ sep @ q) n" by blast
    then have "Suc n < length (c # p)" "token_at (lit sep) ((c # p) @ sep @ q) (Suc n)"
      by (simp_all add: token_at_Cons)
    with Cons.prems(2) show False by blast
  qed
  ultimately show ?case
    using Cons.prems(1) Cons.IH [of "c # acc"] by (subst split_from.simps) simp
qed

text \<open>
  So the text the source reads the address suffix from is the text behind the match
  as long as the plus code does not occur in it again, and then the field is the one
  that the suffix read from the text behind the match gives.
\<close>

lemma findPlusCode_agrees:
  assumes e: "exec True simplePlusCodeRegex t = Some (i, m, caps)"
    and no: "\<not> contains (lit m) (drop (i + length m) t)"
  shows "findPlusCode t = claimed_findPlusCode t"
proof -
  from exec_token_Some [of True simplePlusCodeRegex plus_token, OF _ e] obtain p q where
    pq: "t = p @ m @ q" "length p = i" "plus_token m" "\<not> (\<exists>n < i. token_at plus_token t n)"
    by auto
  from pq(3) have tr: "trim m = m" by (rule trim_plus_token)
  from pq(3) plus_token_plus [of m] have ne: "m \<noteq> []" by auto
  have first: "\<not> (\<exists>n < length p. token_at (lit m) (p @ m @ q) n)"
  proof
    assume "\<exists>n < length p. token_at (lit m) (p @ m @ q) n"
    then obtain n where n: "n < i" "token_at (lit m) t n" using pq(1,2) by auto
    from n(2) pq(3) have "token_at plus_token t n" unfolding token_at_def lit_def by blast
    with n(1) pq(4) show False by blast
  qed
  from pq(1,2) have q: "drop (i + length m) t = q" by simp
  have "split_str t m = p # split_from m [] q"
    unfolding split_str_def using split_from_first [OF ne first, of "[]"] pq(1) by simp
  also have "split_from m [] q = [q]"
    using split_from_none [OF ne, of q "[]"] no q by simp
  finally have sp: "split_str t m = [p, q]" .
  show ?thesis
    by (simp add: findPlusCode_def claimed_findPlusCode_def e tr sp q Let_def)
qed

section \<open>The worker pool\<close>

lemma getScheduler_initialized:
  "scheduler p = Some ws \<Longrightarrow> getScheduler created p = (Inr ws, p)"
  by (simp add: getScheduler_def getScheduler_enter_def)

lemma getScheduler_first_success:
  "(\<And>k. k < WORKER_COUNT \<Longrightarrow> created k) \<Longrightarrow>
   getScheduler created initial_pool =
     (Inr [0, 1, 2], \<lparr> scheduler = Some [0, 1, 2], engines = 3, pending = [] \<rparr>)"
  by (simp add: getScheduler_def getScheduler_enter_def initial_pool_def WORKER_COUNT_def
      upt_rec worker_settles_def)

lemma pool_step_inv: "pool_inv (fst s) \<Longrightarrow> pool_inv (fst (pool_step s ev))"
  by (cases s; cases ev)
    (auto simp: pool_inv_def getScheduler_enter_def worker_settles_def
      split: option.splits if_splits)

lemma pool_foldl_inv: "pool_inv (fst s) \<Longrightarrow> pool_inv (fst (foldl pool_step s evs))"
  by (induction evs arbitrary: s) (auto simp: pool_step_inv)

text \<open>
  Whatever the calls and however the workers settle, \<open>createWorker\<close> is called
  \<open>WORKER_COUNT\<close> times at most: the engines are constructed once.
\<close>

lemma pool_run_one_construction: "engines (fst (pool_run evs)) \<le> WORKER_COUNT"
proof -
  have "pool_inv (fst (pool_run evs))"
    unfolding pool_run_def by (rule pool_foldl_inv) (simp add: pool_inv_def initial_pool_def)
  then show ?thesis by (simp add: pool_inv_def split: if_splits)
qed

text \<open>
  Claim C7. Initialization is idempotent after a first initialization that succeeded
  (\<open>getScheduler_first_success\<close>, \<open>getScheduler_initialized\<close>). But when the creation of
  a worker fails, the first call fails and the variable \<open>scheduler\<close> stays set: the
  next call returns, without error, a scheduler that holds two workers instead of
  three.
\<close>

theorem getScheduler_partial_pool_reused:
  "fst (getScheduler (\<lambda>k. k \<noteq> 1) initial_pool) = Inl WorkerInitError \<and>
   fst (getScheduler (\<lambda>k. True) (snd (getScheduler (\<lambda>k. k \<noteq> 1) initial_pool))) = Inr [0, 2] \<and>
   length [0 :: nat, 2] < WORKER_COUNT"
  by (simp add: getScheduler_def getScheduler_enter_def initial_pool_def WORKER_COUNT_def
      upt_rec worker_settles_def)

text \<open>
  Claim C9. Two calls of \<open>getScheduler\<close> with no worker ready in between (as \<open>onDrop\<close>
  makes them for a batch of two files): the engines are constructed once (three calls
  of \<open>createWorker\<close>), but the second call returns at once, with a scheduler that
  holds no worker yet, while the three workers are still being created.
\<close>

theorem getScheduler_concurrent_call_early:
  "pool_run [Call, Call] =
     (\<lparr> scheduler = Some [], engines = 3, pending = [0, 1, 2] \<rparr>, [[]])"
  by (simp add: pool_run_def getScheduler_enter_def initial_pool_def WORKER_COUNT_def upt_rec)

section \<open>The batch\<close>

text \<open>
  The calls of \<open>getScheduler\<close> that a batch makes: on a pool whose scheduler is set each
  of them returns that scheduler at once; on first use the first call waits for the
  workers and every other call returns at once, with the scheduler that holds no
  worker yet.
\<close>

lemma getScheduler_await:
  "getScheduler created p =
     (case getScheduler_enter p of
        (Some ws, p') \<Rightarrow> (Inr ws, p')
      | (None, p') \<Rightarrow> await_workers created p')"
  by (simp add: getScheduler_def await_workers_def Let_def split: prod.splits option.splits)

lemma enter_all_length: "length (fst (enter_all p n)) = n"
proof (induction n arbitrary: p)
  case 0
  show ?case by simp
next
  case (Suc n)
  obtain r p' where e: "getScheduler_enter p = (r, p')" by (cases "getScheduler_enter p")
  obtain rs p'' where a: "enter_all p' n = (rs, p'')" by (cases "enter_all p' n")
  from Suc.IH [of p'] a have "length rs = n" by simp
  with e a show ?case by simp
qed

lemma enter_all_set: "scheduler p = Some ws \<Longrightarrow> enter_all p n = (replicate n (Some ws), p)"
  by (induction n) (auto simp: getScheduler_enter_def)

lemma await_schedulers_length: "length (fst (await_schedulers created p n)) = n"
  using enter_all_length [of p n] by (auto simp: await_schedulers_def split: prod.splits)

lemma await_schedulers_set:
  "scheduler p = Some ws \<Longrightarrow> fst (await_schedulers created p n) = replicate n (Inr ws)"
  by (simp add: await_schedulers_def enter_all_set split: prod.splits)

lemma await_schedulers_first_use:
  "fst (await_schedulers created initial_pool (Suc n)) =
     (if created 0 \<and> created 1 \<and> created 2 then Inr [0, 1, 2] else Inl WorkerInitError) #
     replicate n (Inr [])"
proof -
  let ?p = "\<lparr> scheduler = Some [], engines = 3, pending = [0, 1, 2] \<rparr>"
  have e: "getScheduler_enter initial_pool = (None, ?p)"
    by (simp add: getScheduler_enter_def initial_pool_def WORKER_COUNT_def upt_rec)
  have a: "fst (await_workers created ?p) =
      (if created 0 \<and> created 1 \<and> created 2 then Inr [0, 1, 2] else Inl WorkerInitError)"
    by (simp add: await_workers_def worker_settles_def)
  obtain aw p2 where w: "await_workers created ?p = (aw, p2)"
    by (cases "await_workers created ?p")
  have ea: "enter_all initial_pool (Suc n) = (None # replicate n (Some []), ?p)"
    by (simp add: e enter_all_set)
  from a w show ?thesis unfolding await_schedulers_def ea by simp
qed

text \<open>What \<open>onDrop\<close> returns and what it downloads.\<close>

lemma map_filter_the:
  "map the (filter (\<lambda>r. r \<noteq> None) (map g zs)) = List.map_filter g zs"
  by (induction zs) (auto simp: List.map_filter_simps)

lemma map_filter_id: "List.map_filter id (map g zs) = List.map_filter g zs"
  by (induction zs) (auto simp: List.map_filter_simps split: option.splits)

lemma onDrop_results_eq:
  "results (fst (onDrop created addJob p files)) =
     map (\<lambda>(tsScheduler, f). case processImage addJob tsScheduler f of
                                   Inl error \<Rightarrow> None
                                 | Inr result \<Rightarrow> Some result)
       (zip (fst (await_schedulers created p (length files))) files)"
proof -
  obtain ss p' where a: "await_schedulers created p (length files) = (ss, p')"
    by (cases "await_schedulers created p (length files)")
  show ?thesis unfolding onDrop_def a prod.case Let_def by simp
qed

lemma onDrop_downloads_eq:
  "downloads (fst (onDrop created addJob p files)) =
     (if List.map_filter id (results (fst (onDrop created addJob p files))) = [] then []
      else [exportToCSV (List.map_filter id (results (fst (onDrop created addJob p files))))])"
proof -
  obtain ss p' where a: "await_schedulers created p (length files) = (ss, p')"
    by (cases "await_schedulers created p (length files)")
  show ?thesis
    unfolding onDrop_results_eq map_filter_id
    unfolding onDrop_def a prod.case Let_def map_filter_the
    by simp
qed

text \<open>
  Claim C5, as the code has it. The batch has one entry per file, in the order of the
  files: \<open>null\<close> when the processing of the file fails, its extracted record
  otherwise, the job of the file being added to the scheduler that the file's call of
  \<open>getScheduler\<close> received. On a pool whose scheduler is set, that is this scheduler
  for every file: the entry of a file whose recognition fails is \<open>null\<close>, that of
  every other file is its extracted record, and an entry depends on its own file
  only, so a failure leaves the other entries as they are.
\<close>

theorem onDrop_results:
  "length (results (fst (onDrop created addJob p files))) = length files \<and>
   (\<forall>j < length files. results (fst (onDrop created addJob p files)) ! j =
      (case processImage addJob (fst (await_schedulers created p (length files)) ! j) (files ! j) of
         Inl error \<Rightarrow> None
       | Inr result \<Rightarrow> Some result)) \<and>
   (\<forall>ws. scheduler p = Some ws \<longrightarrow>
      (\<forall>j < length files. results (fst (onDrop created addJob p files)) ! j =
         (case addJob ws (files ! j) of
            Inl error \<Rightarrow> None
          | Inr text \<Rightarrow> Some (extractFields (name (files ! j)) text))))"
proof (intro conjI allI impI)
  show "length (results (fst (onDrop created addJob p files))) = length files"
    by (simp add: onDrop_results_eq await_schedulers_length)
next
  fix j
  assume "j < length files"
  then show "results (fst (onDrop created addJob p files)) ! j =
      (case processImage addJob (fst (await_schedulers created p (length files)) ! j) (files ! j) of
         Inl error \<Rightarrow> None
       | Inr result \<Rightarrow> Some result)"
    by (simp add: onDrop_results_eq await_schedulers_length)
next
  fix ws j
  assume ws: "scheduler p = Some ws" and j: "j < length files"
  then show "results (fst (onDrop created addJob p files)) ! j =
      (case addJob ws (files ! j) of
         Inl error \<Rightarrow> None
       | Inr text \<Rightarrow> Some (extractFields (name (files ! j)) text))"
    by (simp add: onDrop_results_eq await_schedulers_set processImage_def split: sum.splits)
qed

theorem onDrop_results_witness:
  "scheduler \<lparr> scheduler = Some [0, 1, 2], engines = 3, pending = [] \<rparr> = Some [0, 1, 2] \<and>
   length (results (fst (onDrop (\<lambda>k. True)
       (\<lambda>ws f. if content f = (0::nat) then Inl ''engine error'' else Inr (js ''no data''))
       \<lparr> scheduler = Some [0, 1, 2], engines = 3, pending = [] \<rparr>
       [\<lparr>name = js ''a.png'', content = 0\<rparr>, \<lparr>name = js ''b.png'', content = 1\<rparr>]))) = 2 \<and>
   results (fst (onDrop (\<lambda>k. True)
       (\<lambda>ws f. if content f = (0::nat) then Inl ''engine error'' else Inr (js ''no data''))
       \<lparr> scheduler = Some [0, 1, 2], engines = 3, pending = [] \<rparr>
       [\<lparr>name = js ''a.png'', content = 0\<rparr>, \<lparr>name = js ''b.png'', content = 1\<rparr>])) ! 0 = None \<and>
   results (fst (onDrop (\<lambda>k. True)
       (\<lambda>ws f. if content f = (0::nat) then Inl ''engine error'' else Inr (js ''no data''))
       \<lparr> scheduler = Some [0, 1, 2], engines = 3, pending = [] \<rparr>
       [\<lparr>name = js ''a.png'', content = 0\<rparr>, \<lparr>name = js ''b.png'', content = 1\<rparr>])) ! 1 =
     Some (extractFields (js ''b.png'') (js ''no data''))"
proof -
  let ?addJob = "\<lambda>(ws :: nat list) f. if content f = (0::nat) then Inl ''engine error''
                                       else Inr (js ''no data'')"
  let ?p = "\<lparr> scheduler = Some [0, 1, 2], engines = 3, pending = [] \<rparr>"
  let ?files = "[\<lparr>name = js ''a.png'', content = 0::nat\<rparr>, \<lparr>name = js ''b.png'', content = 1\<rparr>]"
  let ?r = "results (fst (onDrop (\<lambda>k. True) ?addJob ?p ?files))"
  note t = onDrop_results [of "\<lambda>k. True" ?addJob ?p ?files]
  have p: "scheduler ?p = Some [0, 1, 2]" by simp
  from t have len: "length ?r = 2" by simp
  from t p have e: "\<forall>j < length ?files. ?r ! j =
      (case ?addJob [0, 1, 2] (?files ! j) of
         Inl error \<Rightarrow> None
       | Inr text \<Rightarrow> Some (extractFields (name (?files ! j)) text))"
    by blast
  from e [rule_format, of 0] have e0: "?r ! 0 = None" by simp
  from e [rule_format, of 1] have e1: "?r ! 1 = Some (extractFields (js ''b.png'') (js ''no data''))"
    by simp
  from p len e0 e1 show ?thesis by (intro conjI)
qed

text \<open>
  On first use the entries of all files but the first depend on what the engine does
  with a job added to a scheduler without workers: only the first call of
  \<open>getScheduler\<close> waits for the workers (the defect of claim C9).
\<close>

lemma onDrop_first_use:
  "results (fst (onDrop created addJob initial_pool (f # fs))) =
     (if created 0 \<and> created 1 \<and> created 2
      then (case addJob [0, 1, 2] f of
              Inl error \<Rightarrow> None
            | Inr text \<Rightarrow> Some (extractFields (name f) text))
      else None) #
     map (\<lambda>g. case addJob [] g of
                 Inl error \<Rightarrow> None
               | Inr text \<Rightarrow> Some (extractFields (name g) text)) fs"
proof -
  have z: "map h (zip (replicate (length fs) x) fs) = map (\<lambda>g. h (x, g)) fs"
    for h :: "(pool_error + nat list) \<times> 'a jsfile \<Rightarrow> ExtractedData option" and x
    by (induction fs) auto
  from await_schedulers_first_use [of created "length fs"] show ?thesis
    by (auto simp: onDrop_def Let_def processImage_def z split: prod.splits sum.splits)
qed

text \<open>
  The failure marker carries neither the name of the image nor the error: two images
  with different names, failing with different errors, give the same entry. And on
  first use, with an engine that refuses a job only on a scheduler without workers,
  the second image of a batch gets \<open>null\<close> although its recognition does not fail on
  the initialized pool.
\<close>

theorem onDrop_failure_marker_untagged:
  "results (fst (onDrop (\<lambda>k. True) (\<lambda>ws f. Inl (content f))
      \<lparr> scheduler = Some [0, 1, 2], engines = 3, pending = [] \<rparr>
      [\<lparr>name = js ''a.png'', content = ''out of memory''\<rparr>])) = [None] \<and>
   results (fst (onDrop (\<lambda>k. True) (\<lambda>ws f. Inl (content f))
      \<lparr> scheduler = Some [0, 1, 2], engines = 3, pending = [] \<rparr>
      [\<lparr>name = js ''b.png'', content = ''bad image''\<rparr>])) = [None] \<and>
   js ''a.png'' \<noteq> js ''b.png'' \<and> ''out of memory'' \<noteq> ''bad image'' \<and>
   results (fst (onDrop (\<lambda>k. True)
      (\<lambda>ws f. if ws = [] then Inl ''no worker'' else Inr (js ''no data''))
      initial_pool
      [\<lparr>name = js ''a.png'', content = ()\<rparr>, \<lparr>name = js ''b.png'', content = ()\<rparr>])) =
     [Some (extractFields (js ''a.png'') (js ''no data'')), None] \<and>
   results (fst (onDrop (\<lambda>k. True)
      (\<lambda>ws f. if ws = [] then Inl ''no worker'' else Inr (js ''no data''))
      \<lparr> scheduler = Some [0, 1, 2], engines = 3, pending = [] \<rparr>
      [\<lparr>name = js ''a.png'', content = ()\<rparr>, \<lparr>name = js ''b.png'', content = ()\<rparr>])) =
     [Some (extractFields (js ''a.png'') (js ''no data'')),
      Some (extractFields (js ''b.png'') (js ''no data''))]"
proof -
  let ?w = "\<lparr> scheduler = Some [0, 1, 2], engines = 3, pending = [] \<rparr>"
  have s: "fst (await_schedulers (\<lambda>k. True) ?w n) = replicate n (Inr [0, 1, 2])" for n
    by (rule await_schedulers_set) simp
  have a: "results (fst (onDrop (\<lambda>k. True) (\<lambda>ws f. Inl (content f)) ?w
      [\<lparr>name = nm, content = e\<rparr>])) = [None]" for nm and e :: string
    by (simp add: onDrop_results_eq s [of "Suc 0", simplified] processImage_def)
  have b: "results (fst (onDrop (\<lambda>k. True)
      (\<lambda>ws f. if ws = [] then Inl ''no worker'' else Inr (js ''no data'')) initial_pool
      [\<lparr>name = js ''a.png'', content = ()\<rparr>, \<lparr>name = js ''b.png'', content = ()\<rparr>])) =
     [Some (extractFields (js ''a.png'') (js ''no data'')), None]"
    by (simp add: onDrop_first_use)
  have c: "results (fst (onDrop (\<lambda>k. True)
      (\<lambda>ws f. if ws = [] then Inl ''no worker'' else Inr (js ''no data'')) ?w
      [\<lparr>name = js ''a.png'', content = ()\<rparr>, \<lparr>name = js ''b.png'', content = ()\<rparr>])) =
     [Some (extractFields (js ''a.png'') (js ''no data'')),
      Some (extractFields (js ''b.png'') (js ''no data''))]"
    by (simp add: onDrop_results_eq s [of "Suc (Suc 0)", simplified] processImage_def)
  have d: "js ''a.png'' \<noteq> js ''b.png''" "''out of memory'' \<noteq> ''bad image''"
    by (simp_all add: js_def)
  from a [of "js ''a.png''" "''out of memory''"] a [of "js ''b.png''" "''bad image''"] b c d
  show ?thesis by (intro conjI)
qed

text \<open>
  Claim C8. The records exported are the entries of the batch that are not \<open>null\<close>,
  those of the files whose processing succeeded, in the order of the files; with no
  such file nothing is downloaded, otherwise exactly one file is.
\<close>

theorem onDrop_exports_successes:
  "downloads (fst (onDrop created addJob p files)) =
     (if List.map_filter (\<lambda>(tsScheduler, f).
           case processImage addJob tsScheduler f of
             Inl error \<Rightarrow> None
           | Inr result \<Rightarrow> Some result)
         (zip (fst (await_schedulers created p (length files))) files) = []
      then []
      else [exportToCSV
              (List.map_filter (\<lambda>(tsScheduler, f).
                  case processImage addJob tsScheduler f of
                    Inl error \<Rightarrow> None
                  | Inr result \<Rightarrow> Some result)
                (zip (fst (await_schedulers created p (length files))) files))]) \<and>
   List.map_filter (\<lambda>(tsScheduler, f).
       case processImage addJob tsScheduler f of
         Inl error \<Rightarrow> None
       | Inr result \<Rightarrow> Some result)
     (zip (fst (await_schedulers created p (length files))) files) =
   List.map_filter id (results (fst (onDrop created addJob p files)))"
  using onDrop_downloads_eq [of created addJob p files]
  unfolding onDrop_results_eq map_filter_id by simp

section \<open>The extracted record\<close>

text \<open>
  Claim C10. The field \<open>originalText\<close> is the recognized text as it came, not the
  normalized text; the four extracted fields depend on the recognized text through
  its normalization only.
\<close>

theorem originalText_raw:
  "originalText (extractFields nm text) = text \<and>
   (normalizeText text = normalizeText text' \<longrightarrow>
      plusCode (extractFields nm text) = plusCode (extractFields nm' text') \<and>
      latitude (extractFields nm text) = latitude (extractFields nm' text') \<and>
      longitude (extractFields nm text) = longitude (extractFields nm' text') \<and>
      timestamp (extractFields nm text) = timestamp (extractFields nm' text'))"
  by (simp add: extractFields_def Let_def)

theorem originalText_raw_witness:
  "normalizeText [49, 10, 50] = normalizeText [49, 32, 32, 50] \<and>
   originalText (extractFields [] [49, 10, 50]) = [49, 10, 50] \<and>
   originalText (extractFields [] [49, 32, 32, 50]) = [49, 32, 32, 50] \<and>
   plusCode (extractFields [] [49, 10, 50]) = plusCode (extractFields [] [49, 32, 32, 50]) \<and>
   timestamp (extractFields [] [49, 10, 50]) = timestamp (extractFields [] [49, 32, 32, 50])"
proof -
  have n: "normalizeText [49, 10, 50] = normalizeText [49, 32, 32, 50]"
    by (simp add: normalizeText_def replace_all_def js_def char_defs eval_simps)
  show ?thesis
    using n originalText_raw [of "[]" "[49, 10, 50]" "[49, 32, 32, 50]" "[]"]
      originalText_raw [of "[]" "[49, 32, 32, 50]" "[49, 32, 32, 50]" "[]"]
    by simp
qed


section \<open>The coordinates\<close>

text \<open>
  Claim C1. In the normalized text the coordinate tokens (an optional \<open>-\<close>, 1 to 3
  digits, \<open>.\<close> or \<open>,\<close>, 3 to 12 digits) are found from left to right, each at the
  first index where one starts behind the token before, and the longest one that
  starts there: the matches are the one list that \<open>scans\<close> describes. Each is read as
  the decimal number it denotes, whichever the separator (\<open>token_value\<close>). The latitude is
  the printed first number between 23 and 37, the longitude the printed first number
  between 60 and 78; a field with no number in its range is \<open>Not found\<close>, and no
  number outside a field's range is ever selected for it.
\<close>

theorem coordinates_first_in_range:
  "(\<forall>ws. scans coord_token (normalizeText text) ws \<longleftrightarrow>
      ws = match_all False allNumbersRegex (normalizeText text)) \<and>
   list_all2 token_value (match_all False allNumbersRegex (normalizeText text))
     (potentialCoords (normalizeText text)) \<and>
   ((\<forall>v \<in> set (potentialCoords (normalizeText text)). \<not> in_range 23 37 v) \<longrightarrow>
      latitude (extractFields nm text) = not_found) \<and>
   (\<forall>pre v post. potentialCoords (normalizeText text) = pre @ v # post \<longrightarrow>
      in_range 23 37 v \<longrightarrow> (\<forall>u \<in> set pre. \<not> in_range 23 37 u) \<longrightarrow>
      latitude (extractFields nm text) = toString v) \<and>
   ((\<forall>v \<in> set (potentialCoords (normalizeText text)). \<not> in_range 60 78 v) \<longrightarrow>
      longitude (extractFields nm text) = not_found) \<and>
   (\<forall>pre v post. potentialCoords (normalizeText text) = pre @ v # post \<longrightarrow>
      in_range 60 78 v \<longrightarrow> (\<forall>u \<in> set pre. \<not> in_range 60 78 u) \<longrightarrow>
      longitude (extractFields nm text) = toString v) \<and>
   (latitude (extractFields nm text) = not_found \<or>
      (\<exists>v \<in> set (potentialCoords (normalizeText text)).
         in_range 23 37 v \<and> latitude (extractFields nm text) = toString v)) \<and>
   (longitude (extractFields nm text) = not_found \<or>
      (\<exists>v \<in> set (potentialCoords (normalizeText text)).
         in_range 60 78 v \<and> longitude (extractFields nm text) = toString v))"
proof -
  have la: "latitude (extractFields nm text) = firstInRange 23 37 (potentialCoords (normalizeText text))"
    and lo: "longitude (extractFields nm text) = firstInRange 60 78 (potentialCoords (normalizeText text))"
    by (simp_all add: extractFields_def Let_def)
  have sc: "scans coord_token (normalizeText text) ws \<longleftrightarrow>
      ws = match_all False allNumbersRegex (normalizeText text)" for ws
  proof
    assume "scans coord_token (normalizeText text) ws"
    from this match_all_coords show "ws = match_all False allNumbersRegex (normalizeText text)"
      by (rule scans_unique)
  next
    assume "ws = match_all False allNumbersRegex (normalizeText text)"
    with match_all_coords show "scans coord_token (normalizeText text) ws" by simp
  qed
  show ?thesis
    unfolding la lo
    using potentialCoords_values firstInRange_none firstInRange_first firstInRange_selected
    by (intro conjI allI impI) (simp only: sc, blast+)
qed

theorem coordinates_first_in_range_witness:
  "potentialCoords (normalizeText (js ''x 31.5204,74.3587'')) =
     [Dec False 315204 4, Dec False 743587 4] \<and>
   scans coord_token (normalizeText (js ''x 31.5204,74.3587''))
     [js ''31.5204'', js ''74.3587''] \<and>
   latitude (extractFields [] (js ''x 31.5204,74.3587'')) = toString (Dec False 315204 4) \<and>
   longitude (extractFields [] (js ''x 31.5204,74.3587'')) = toString (Dec False 743587 4) \<and>
   toString (Dec False 315204 4) = js ''31.5204'' \<and>
   toString (Dec False 743587 4) = js ''74.3587'' \<and>
   potentialCoords (normalizeText (js ''1234'')) = [] \<and>
   latitude (extractFields [] (js ''1234'')) = not_found \<and>
   longitude (extractFields [] (js ''1234'')) = not_found"
proof -
  let ?t = "js ''x 31.5204,74.3587''"
  have n: "normalizeText ?t = ?t"
    by (simp add: normalizeText_def replace_all_def js_def char_defs eval_simps)
  have co: "potentialCoords ?t = [] @ Dec False 315204 4 # [Dec False 743587 4]"
    by (simp add: potentialCoords_def match_all_def replace_comma_def replace_first_def
        exec_def parseFloat_def digits_val_def js_def regex_defs char_defs Let_def eval_simps)
  have co': "potentialCoords ?t = [Dec False 315204 4] @ Dec False 743587 4 # []"
    using co by simp
  have r: "in_range 23 37 (Dec False 315204 4)" "in_range 60 78 (Dec False 743587 4)"
    "\<not> in_range 60 78 (Dec False 315204 4)"
    by (simp_all add: in_range_def)
  have s: "toString (Dec False 315204 4) = js ''31.5204''"
    "toString (Dec False 743587 4) = js ''74.3587''"
    by (simp_all add: toString_def js_def eval_simps)
  have n2: "normalizeText (js ''1234'') = js ''1234''"
    by (simp add: normalizeText_def replace_all_def js_def char_defs eval_simps)
  have co2: "potentialCoords (js ''1234'') = []"
    by (simp add: potentialCoords_def match_all_def js_def regex_defs char_defs eval_simps)
  note a = coordinates_first_in_range [of ?t "[]", unfolded n]
  note b = coordinates_first_in_range [of "js ''1234''" "[]", unfolded n2]
  from a co r(1) have la: "latitude (extractFields [] ?t) = toString (Dec False 315204 4)"
    by (metis empty_iff empty_set)
  from a co' r(2,3) have lo: "longitude (extractFields [] ?t) = toString (Dec False 743587 4)"
    by (metis empty_iff empty_set set_ConsD)
  from b co2 have nf: "latitude (extractFields [] (js ''1234'')) = not_found"
    "longitude (extractFields [] (js ''1234'')) = not_found"
    by simp_all
  have ma: "match_all False allNumbersRegex ?t = [js ''31.5204'', js ''74.3587'']"
    by (simp add: match_all_def js_def regex_defs char_defs eval_simps)
  from a have sc: "scans coord_token ?t [js ''31.5204'', js ''74.3587'']"
    unfolding ma by blast
  show ?thesis unfolding n n2 using co co2 la lo nf s sc by simp
qed

section \<open>The plus code\<close>

text \<open>
  Claim C2. With no plus-code token in the text the field is \<open>Not found\<close>
  (\<open>findPlusCode_none\<close>), and with one it starts with the first token
  (\<open>findPlusCode_some\<close>). But the address suffix is read from \<open>split(pc)[1]\<close>, the text
  between the first and the second occurrence of the plus code, not from all the text
  behind the match. The two are the same text unless the plus code occurs again behind
  the match (\<open>findPlusCode_agrees\<close>); when it does, the suffix stops short of the
  second occurrence, while the suffix read from the text behind the match goes on to
  the token \<open>ABCD\<close>.
\<close>

theorem plusCode_suffix_cut:
  "plusCode (extractFields nm (js ''ABCD+EF Lahore ABCD+EF'')) = js ''ABCD+EF Lahore'' \<and>
   claimed_findPlusCode (normalizeText (js ''ABCD+EF Lahore ABCD+EF'')) =
     js ''ABCD+EF Lahore ABCD''"
proof -
  let ?t = "js ''ABCD+EF Lahore ABCD+EF''"
  have n: "normalizeText ?t = ?t"
    by (simp add: normalizeText_def replace_all_def js_def char_defs eval_simps)
  have e1: "exec True simplePlusCodeRegex ?t = Some (0, js ''ABCD+EF'', [])"
    by (simp add: exec_def js_def regex_defs char_defs eval_simps)
  have tr: "trim (js ''ABCD+EF'') = js ''ABCD+EF''"
    by (simp add: trim_def js_def is_space_def)
  have sp: "split_str ?t (js ''ABCD+EF'') = [[], js '' Lahore '', []]"
    by (simp add: split_str_def js_def eval_simps)
  have e2: "exec False addressCleanupRegex (js '' Lahore '') = Some (0, js '' Lahore'', [])"
    by (simp add: exec_def js_def regex_defs char_defs eval_simps)
  have e3: "replace_first False trailingSeparators [] (js '' Lahore'') = js '' Lahore''"
    by (simp add: replace_first_def exec_def js_def regex_defs char_defs eval_simps)
  have "findPlusCode ?t = js ''ABCD+EF'' @ js '' Lahore''"
    by (simp add: findPlusCode_def e1 tr sp e2 e3)
  then have a: "findPlusCode ?t = js ''ABCD+EF Lahore''" by (simp add: js_def)
  have d: "drop (length (js ''ABCD+EF'')) ?t = js '' Lahore ABCD+EF''"
    by (simp add: js_def)
  have e4: "exec False addressCleanupRegex (js '' Lahore ABCD+EF'') =
      Some (0, js '' Lahore ABCD'', [])"
    by (simp add: exec_def js_def regex_defs char_defs eval_simps)
  have e5: "replace_first False trailingSeparators [] (js '' Lahore ABCD'') = js '' Lahore ABCD''"
    by (simp add: replace_first_def exec_def js_def regex_defs char_defs eval_simps)
  have "claimed_findPlusCode ?t = js ''ABCD+EF'' @ js '' Lahore ABCD''"
    by (simp add: claimed_findPlusCode_def e1 d e4 e5)
  then have b: "claimed_findPlusCode ?t = js ''ABCD+EF Lahore ABCD''" by (simp add: js_def)
  show ?thesis unfolding n using a b by (simp add: extractFields_def Let_def n)
qed

section \<open>The timestamp\<close>

text \<open>
  Claim C3, as the code has it. The four patterns are tried in their order: a time
  with an hour of 1 or 2 digits and a marker AM or PM, then a date; a date, then such
  a time with or without marker; a time with an hour of 2 digits and no marker, then
  a date; a date, then such a time. Dates have their parts separated by \<open>/\<close>, times by
  \<open>:\<close>, seconds are optional, and white space separates the two. When none of the
  four shapes occurs in the normalized text the field is \<open>Not found\<close>; otherwise it
  is read where the first shape that occurs occurs first, from the longest text of
  that shape there: its two texts joined by one space, trimmed. This fixes the field:
  it is the one text that \<open>ts_found\<close> describes.
\<close>

theorem timestamp_first_pattern:
  "((\<forall>k < 4. \<not> occurs (ts_shapes ! k) (normalizeText text)) \<longrightarrow>
      timestamp (extractFields nm text) = not_found) \<and>
   (\<forall>n < 4. occurs (ts_shapes ! n) (normalizeText text) \<longrightarrow>
      (\<forall>k < n. \<not> occurs (ts_shapes ! k) (normalizeText text)) \<longrightarrow>
      (\<forall>r. ts_found (ts_shapes ! n) (normalizeText text) r \<longleftrightarrow>
         r = timestamp (extractFields nm text)))"
proof -
  have ts: "timestamp (extractFields nm text) =
      findTimestamp (drop 0 timestampPatterns) (normalizeText text)"
    by (simp add: extractFields_def Let_def)
  have none: "(\<forall>k < 4. \<not> occurs (ts_shapes ! k) (normalizeText text)) \<longrightarrow>
      findTimestamp (drop 0 timestampPatterns) (normalizeText text) = not_found"
    by (intro impI findTimestamp_none) auto
  have some: "ts_found (ts_shapes ! n) (normalizeText text) r \<longleftrightarrow>
      r = findTimestamp (drop 0 timestampPatterns) (normalizeText text)"
    if n: "n < 4" "occurs (ts_shapes ! n) (normalizeText text)"
      "\<forall>k < n. \<not> occurs (ts_shapes ! k) (normalizeText text)" for n r
  proof -
    have f: "ts_found (ts_shapes ! n) (normalizeText text)
        (findTimestamp (drop 0 timestampPatterns) (normalizeText text))"
      using n by (intro findTimestamp_first) auto
    show ?thesis
    proof
      assume "ts_found (ts_shapes ! n) (normalizeText text) r"
      from n(1) this f
      show "r = findTimestamp (drop 0 timestampPatterns) (normalizeText text)"
        by (rule ts_found_unique)
    next
      assume "r = findTimestamp (drop 0 timestampPatterns) (normalizeText text)"
      with f show "ts_found (ts_shapes ! n) (normalizeText text) r" by simp
    qed
  qed
  show ?thesis unfolding ts using none some by blast
qed

theorem timestamp_first_pattern_witness:
  "\<not> occurs (ts_shapes ! 0) (normalizeText (js ''at 14:30 08/11/2023'')) \<and>
   \<not> occurs (ts_shapes ! 1) (normalizeText (js ''at 14:30 08/11/2023'')) \<and>
   occurs (ts_shapes ! 2) (normalizeText (js ''at 14:30 08/11/2023'')) \<and>
   ts_found (ts_shapes ! 2) (normalizeText (js ''at 14:30 08/11/2023''))
     (js ''14:30 08/11/2023'') \<and>
   \<not> ts_found (ts_shapes ! 2) (normalizeText (js ''at 14:30 08/11/2023''))
     (js ''14:30 08/11/20'') \<and>
   timestamp (extractFields [] (js ''at 14:30 08/11/2023'')) = js ''14:30 08/11/2023'' \<and>
   \<not> occurs (ts_shapes ! 0) (normalizeText (js ''1/1/2020 1:00 PM'')) \<and>
   occurs (ts_shapes ! 1) (normalizeText (js ''1/1/2020 1:00 PM'')) \<and>
   ts_found (ts_shapes ! 1) (normalizeText (js ''1/1/2020 1:00 PM''))
     (js ''1/1/2020 1:00 PM'') \<and>
   \<not> ts_found (ts_shapes ! 1) (normalizeText (js ''1/1/2020 1:00 PM''))
     (js ''1/1/2020 1:00'') \<and>
   timestamp (extractFields [] (js ''1/1/2020 1:00 PM'')) = js ''1/1/2020 1:00 PM'' \<and>
   \<not> occurs (ts_shapes ! 2) (normalizeText (js ''1:00 1/1/2020'')) \<and>
   \<not> occurs (ts_shapes ! 3) (normalizeText (js ''1:00 1/1/2020'')) \<and>
   timestamp (extractFields [] (js ''1:00 1/1/2020'')) = not_found"
proof -
  let ?t = "js ''at 14:30 08/11/2023''" and ?u = "js ''1:00 1/1/2020''"
    and ?w = "js ''1/1/2020 1:00 PM''"
  have n: "normalizeText ?t = ?t" "normalizeText ?u = ?u" "normalizeText ?w = ?w"
    by (simp_all add: normalizeText_def replace_all_def js_def char_defs eval_simps)
  have e: "exec True (timestampPatterns ! 0) ?t = None" "exec True (timestampPatterns ! 1) ?t = None"
    "exec True (timestampPatterns ! 2) ?t \<noteq> None"
    by (simp_all add: exec_def js_def regex_defs char_defs eval_simps)
  have e': "exec True (timestampPatterns ! 0) ?u = None" "exec True (timestampPatterns ! 1) ?u = None"
    "exec True (timestampPatterns ! 2) ?u = None" "exec True (timestampPatterns ! 3) ?u = None"
    by (simp_all add: exec_def js_def regex_defs char_defs eval_simps)
  have e'': "exec True (timestampPatterns ! 0) ?w = None"
    "exec True (timestampPatterns ! 1) ?w \<noteq> None"
    by (simp_all add: exec_def js_def regex_defs char_defs eval_simps)
  have o: "\<not> occurs (ts_shapes ! 0) ?t" "\<not> occurs (ts_shapes ! 1) ?t" "occurs (ts_shapes ! 2) ?t"
    using e timestamp_none [of 0 ?t] timestamp_none [of 1 ?t] timestamp_none [of 2 ?t] by simp_all
  have o': "\<not> occurs (ts_shapes ! k) ?u" if "k < 4" for k
  proof -
    from that consider "k = 0" | "k = 1" | "k = 2" | "k = 3" by arith
    then show ?thesis
      using e' timestamp_none [of 0 ?u] timestamp_none [of 1 ?u] timestamp_none [of 2 ?u]
        timestamp_none [of 3 ?u]
      by cases simp_all
  qed
  have o'': "\<not> occurs (ts_shapes ! 0) ?w" "occurs (ts_shapes ! 1) ?w"
  proof -
    show "\<not> occurs (ts_shapes ! 0) ?w" using e''(1) timestamp_none [of 0 ?w] by simp
    have i: "exec True (timestampPatterns ! 1) ?w = None \<longleftrightarrow> \<not> occurs (ts_shapes ! 1) ?w"
      by (rule timestamp_none) simp
    have "\<not> \<not> occurs (ts_shapes ! 1) ?w" using e''(2) unfolding i .
    then show "occurs (ts_shapes ! 1) ?w" by (rule notnotD)
  qed
  have lt: "\<forall>k < 2. \<not> occurs (ts_shapes ! k) ?t"
    using o(1,2) by (auto simp: less_2_cases_iff)
  have lt'': "\<forall>k < 1. \<not> occurs (ts_shapes ! k) ?w"
    using o''(1) by simp
  note a = timestamp_first_pattern [of ?t "[]", unfolded n]
  note b = timestamp_first_pattern [of ?u "[]", unfolded n]
  note c = timestamp_first_pattern [of ?w "[]", unfolded n]
  have "findTimestamp timestampPatterns ?t = js ''14:30 08/11/2023''"
    by (simp add: exec_def capture_def trim_def js_def regex_defs char_defs eval_simps)
  then have v: "timestamp (extractFields [] ?t) = js ''14:30 08/11/2023''"
    by (simp add: extractFields_def Let_def n)
  have "findTimestamp timestampPatterns ?w = js ''1/1/2020 1:00 PM''"
    by (simp add: exec_def capture_def trim_def js_def regex_defs char_defs eval_simps)
  then have v'': "timestamp (extractFields [] ?w) = js ''1/1/2020 1:00 PM''"
    by (simp add: extractFields_def Let_def n)
  from a o(3) lt have "\<forall>r. ts_found (ts_shapes ! 2) ?t r \<longleftrightarrow> r = timestamp (extractFields [] ?t)"
    by simp
  then have f: "ts_found (ts_shapes ! 2) ?t (js ''14:30 08/11/2023'')"
    "\<not> ts_found (ts_shapes ! 2) ?t (js ''14:30 08/11/20'')"
    unfolding v by (simp_all add: js_def)
  from c o''(2) lt'' have "\<forall>r. ts_found (ts_shapes ! 1) ?w r \<longleftrightarrow> r = timestamp (extractFields [] ?w)"
    by simp
  then have f'': "ts_found (ts_shapes ! 1) ?w (js ''1/1/2020 1:00 PM'')"
    "\<not> ts_found (ts_shapes ! 1) ?w (js ''1/1/2020 1:00'')"
    unfolding v'' by (simp_all add: js_def)
  from b o' have nf: "timestamp (extractFields [] ?u) = not_found" by blast
  show ?thesis unfolding n using o o' [of 2] o' [of 3] o'' f f'' nf v v'' by simp
qed

text \<open>
  With the patterns as the specification words them, each with an optional marker, a
  time without marker before a date would be a timestamp; the code finds none.
\<close>

theorem timestamp_marker_not_optional:
  "timestamp (extractFields (js ''a.png'') (js ''1:00 1/1/2020'')) = not_found \<and>
   findTimestamp claimed_timestampPatterns (normalizeText (js ''1:00 1/1/2020'')) =
     js ''1:00 1/1/2020''"
proof -
  let ?t = "js ''1:00 1/1/2020''"
  have n: "normalizeText ?t = ?t"
    by (simp add: normalizeText_def replace_all_def js_def char_defs eval_simps)
  have a: "findTimestamp timestampPatterns ?t = not_found"
    by (simp add: exec_def js_def regex_defs char_defs eval_simps)
  have b: "findTimestamp claimed_timestampPatterns ?t = ?t"
    by (simp add: exec_def capture_def trim_def js_def claimed_timestampPatterns_def
        claimed_time_def regex_defs char_defs eval_simps)
  show ?thesis unfolding n using a b by (simp add: extractFields_def Let_def n)
qed

section \<open>No field is empty\<close>

text \<open>
  Claim C4. The extraction is a total function: the source has no operation that
  throws on any text, and every loop of the model is a terminating recursion. Each of
  the four fields is a text, never \<open>null\<close>, and never the empty text: it is
  \<open>Not found\<close> or a matched value, that is, a plus-code token with what follows it, a
  printed number of the field's range, or the timestamp read where one of the four
  shapes occurs.
\<close>

theorem extract_fields_total:
  "plusCode (extractFields nm text) \<noteq> [] \<and>
   latitude (extractFields nm text) \<noteq> [] \<and>
   longitude (extractFields nm text) \<noteq> [] \<and>
   timestamp (extractFields nm text) \<noteq> [] \<and>
   (plusCode (extractFields nm text) = not_found \<or>
      (\<exists>pc sfx. plus_token pc \<and> plusCode (extractFields nm text) = pc @ sfx)) \<and>
   (latitude (extractFields nm text) = not_found \<or>
      (\<exists>v \<in> set (potentialCoords (normalizeText text)).
         in_range 23 37 v \<and> latitude (extractFields nm text) = toString v)) \<and>
   (longitude (extractFields nm text) = not_found \<or>
      (\<exists>v \<in> set (potentialCoords (normalizeText text)).
         in_range 60 78 v \<and> longitude (extractFields nm text) = toString v)) \<and>
   (timestamp (extractFields nm text) = not_found \<or>
      (\<exists>n < 4. ts_found (ts_shapes ! n) (normalizeText text)
         (timestamp (extractFields nm text))))"
proof -
  have f: "plusCode (extractFields nm text) = findPlusCode (normalizeText text)"
    "latitude (extractFields nm text) = firstInRange 23 37 (potentialCoords (normalizeText text))"
    "longitude (extractFields nm text) = firstInRange 60 78 (potentialCoords (normalizeText text))"
    "timestamp (extractFields nm text) = findTimestamp timestampPatterns (normalizeText text)"
    by (simp_all add: extractFields_def Let_def)
  have pc: "findPlusCode (normalizeText text) = not_found \<or>
      (\<exists>pc sfx. plus_token pc \<and> findPlusCode (normalizeText text) = pc @ sfx)"
    using findPlusCode_none [of "normalizeText text"] findPlusCode_some [of "normalizeText text"]
    by blast
  have ts: "findTimestamp timestampPatterns (normalizeText text) = not_found \<or>
      (\<exists>n < 4. ts_found (ts_shapes ! n) (normalizeText text)
         (findTimestamp timestampPatterns (normalizeText text)))"
    using findTimestamp_cases [of "normalizeText text"] by blast
  show ?thesis
    unfolding f
    using findPlusCode_nonempty firstInRange_nonempty findTimestamp_nonempty pc ts
      firstInRange_selected
    by (intro conjI) blast+
qed

end
